theory Spec2Isabelle
  imports Complex_Main "HOL-Library.Multiset"
begin

section \<open>Strings as the normaliser sees them\<close>

text \<open>
  A Python \<open>str\<close> is modelled as an Isabelle \<open>string\<close>: a list of characters with code
  points below 256 (ASCII and Latin-1). The character classes below are those of
  Python 3's \<open>re\<close> module on \<open>str\<close> patterns, restricted to that range.
\<close>

definition ascii_lowercase :: string where
  "ascii_lowercase = ''abcdefghijklmnopqrstuvwxyz''"

definition ascii_uppercase :: string where
  "ascii_uppercase = ''ABCDEFGHIJKLMNOPQRSTUVWXYZ''"

definition digits :: string where
  "digits = ''0123456789''"

text \<open>
  \<open>str.lower()\<close>. ASCII capitals go to their small letters. Python also maps the
  Latin-1 capitals to Latin-1 small letters; the model leaves them alone, and the
  next step of \<open>preprocess_text\<close> turns either into a space.
\<close>

definition lower_char :: "char \<Rightarrow> char" where
  "lower_char c =
     (case map_of (zip ascii_uppercase ascii_lowercase) c of
        Some d \<Rightarrow> d
      | None \<Rightarrow> c)"

definition lower :: "string \<Rightarrow> string" where
  "lower s = map lower_char s"

text \<open>The class \<open>[a-zA-Z+]\<close>, whose complement \<open>re.sub(r"[^a-zA-Z+]", " ", text)\<close> blanks.\<close>

definition is_alpha_plus :: "char \<Rightarrow> bool" where
  "is_alpha_plus c \<longleftrightarrow> c \<in> set (ascii_lowercase @ ascii_uppercase @ ''+'')"

definition sub_non_alpha :: "string \<Rightarrow> string" where
  "sub_non_alpha s = map (\<lambda>c. if is_alpha_plus c then c else CHR '' '') s"

text \<open>
  The class \<open>\w\<close>: ASCII letters, digits and the underscore, and the Latin-1 characters
  that \<open>str.isalnum()\<close> accepts.
\<close>

definition latin1_word_chars :: string where
  "latin1_word_chars =
     [CHR 0xAA, CHR 0xB2, CHR 0xB3, CHR 0xB5, CHR 0xB9, CHR 0xBA, CHR 0xBC, CHR 0xBD, CHR 0xBE,
      CHR 0xC0, CHR 0xC1, CHR 0xC2, CHR 0xC3, CHR 0xC4, CHR 0xC5, CHR 0xC6, CHR 0xC7,
      CHR 0xC8, CHR 0xC9, CHR 0xCA, CHR 0xCB, CHR 0xCC, CHR 0xCD, CHR 0xCE, CHR 0xCF,
      CHR 0xD0, CHR 0xD1, CHR 0xD2, CHR 0xD3, CHR 0xD4, CHR 0xD5, CHR 0xD6,
      CHR 0xD8, CHR 0xD9, CHR 0xDA, CHR 0xDB, CHR 0xDC, CHR 0xDD, CHR 0xDE, CHR 0xDF,
      CHR 0xE0, CHR 0xE1, CHR 0xE2, CHR 0xE3, CHR 0xE4, CHR 0xE5, CHR 0xE6, CHR 0xE7,
      CHR 0xE8, CHR 0xE9, CHR 0xEA, CHR 0xEB, CHR 0xEC, CHR 0xED, CHR 0xEE, CHR 0xEF,
      CHR 0xF0, CHR 0xF1, CHR 0xF2, CHR 0xF3, CHR 0xF4, CHR 0xF5, CHR 0xF6,
      CHR 0xF8, CHR 0xF9, CHR 0xFA, CHR 0xFB, CHR 0xFC, CHR 0xFD, CHR 0xFE, CHR 0xFF]"

definition is_word :: "char \<Rightarrow> bool" where
  "is_word c \<longleftrightarrow>
     c \<in> set (ascii_lowercase @ ascii_uppercase @ digits @ ''_'' @ latin1_word_chars)"

text \<open>The class \<open>\s\<close>, which is also what \<open>str.split()\<close> and \<open>str.strip()\<close> treat as blank.\<close>

definition whitespace :: string where
  "whitespace =
     [CHR 0x09, CHR 0x0A, CHR 0x0B, CHR 0x0C, CHR 0x0D, CHR 0x1C, CHR 0x1D, CHR 0x1E, CHR 0x1F,
      CHR 0x20, CHR 0x85, CHR 0xA0]"

definition is_space :: "char \<Rightarrow> bool" where
  "is_space c \<longleftrightarrow> c \<in> set whitespace"

text \<open>
  \<open>re.sub('kindly|hi|hello', '', text)\<close>: scanning from the left, at each position the
  alternatives are tried in the order written; a match is deleted and the scan goes on
  after it, otherwise the character is kept.
\<close>

fun remove_greetings :: "string \<Rightarrow> string" where
  "remove_greetings [] = []"
| "remove_greetings (c # cs) =
     (if take 6 (c # cs) = ''kindly'' then remove_greetings (drop 5 cs)
      else if take 2 (c # cs) = ''hi'' then remove_greetings (drop 1 cs)
      else if take 5 (c # cs) = ''hello'' then remove_greetings (drop 4 cs)
      else c # remove_greetings cs)"

text \<open>\<open>str.split()\<close> with no argument: the maximal runs of non-blank characters.\<close>

function split :: "string \<Rightarrow> string list" where
  "split s =
     (case dropWhile is_space s of
        [] \<Rightarrow> []
      | c # cs \<Rightarrow> takeWhile (\<lambda>x. \<not> is_space x) (c # cs) # split (dropWhile (\<lambda>x. \<not> is_space x) cs))"
  by pat_completeness auto
termination
proof (relation "measure length")
  show "wf (measure length)" by simp
next
  fix s :: string and c cs
  assume "dropWhile is_space s = c # cs"
  then have "length (c # cs) \<le> length s"
    by (metis length_dropWhile_le)
  moreover have "length (dropWhile (\<lambda>x. \<not> is_space x) cs) \<le> length cs"
    by (rule length_dropWhile_le)
  ultimately show "(dropWhile (\<lambda>x. \<not> is_space x) cs, s) \<in> measure length"
    by simp
qed

text \<open>\<open>sep.join(tokens)\<close>.\<close>

fun join :: "string \<Rightarrow> string list \<Rightarrow> string" where
  "join sep [] = []"
| "join sep [t] = t"
| "join sep (t # u # ts) = t @ sep @ join sep (u # ts)"

text \<open>\<open>text.replace(old, " ")\<close> for a one-character \<open>old\<close>.\<close>

definition replace_char :: "char \<Rightarrow> string \<Rightarrow> string" where
  "replace_char old s = map (\<lambda>c. if c = old then CHR '' '' else c) s"

text \<open>
  \<open>re.sub(r'\b\w{1,2}\b', '', text)\<close>. A match starts where a run of word characters
  starts and must end where the run ends, so it is a whole maximal run of one or two
  word characters; inside a longer run no position is a word boundary. Such runs are
  deleted, everything else is kept.
\<close>

function remove_short_words :: "string \<Rightarrow> string" where
  "remove_short_words [] = []"
| "remove_short_words (c # cs) =
     (if is_word c then
        (let run = c # takeWhile is_word cs
         in (if length run \<le> 2 then [] else run) @ remove_short_words (dropWhile is_word cs))
      else c # remove_short_words cs)"
  by pat_completeness auto
termination
  by (relation "measure length") (auto simp: length_dropWhile_le less_Suc_eq_le)

text \<open>\<open>re.sub(r'\s+', ' ', text)\<close>: every maximal run of blanks becomes one space.\<close>

function collapse_whitespace :: "string \<Rightarrow> string" where
  "collapse_whitespace [] = []"
| "collapse_whitespace (c # cs) =
     (if is_space c then CHR '' '' # collapse_whitespace (dropWhile is_space cs)
      else c # collapse_whitespace cs)"
  by pat_completeness auto
termination
  by (relation "measure length") (auto simp: length_dropWhile_le less_Suc_eq_le)

text \<open>\<open>str.strip()\<close>.\<close>

definition strip :: "string \<Rightarrow> string" where
  "strip s = rev (dropWhile is_space (rev (dropWhile is_space s)))"


declare split.simps [simp del]

section \<open>The \<open>TicketClustering\<close> object and its normaliser\<close>

text \<open>
  What the class takes from NLTK: the list \<open>stopwords.words('english')\<close> and the
  function \<open>WordNetLemmatizer().lemmatize\<close>. Neither is part of the repository, so
  both are parameters. (The \<open>PorterStemmer\<close> the constructor also creates is never
  used.)
\<close>

record nltk =
  stopwords_english :: "string list"
  wordnet_lemmatize :: "string \<Rightarrow> string"

record ticket_clustering =
  input_file :: string
  output_file :: string
  lemmatizer :: "string \<Rightarrow> string"
  stop_words :: "string set"

definition domain_stop_words :: "string list" where
  "domain_stop_words =
     [''make'', ''sent'', ''still'', ''kindly'', ''please'', ''dear'', ''till'', ''soon'',
      ''since'', ''however'', ''said'', ''also'', ''know'', ''already'', ''related'',
      ''take'', ''made'', ''thanks'', ''regards'', ''consider'', ''need'', ''required'',
      ''within'', ''taken'', ''hence'', ''thank'', ''much'', ''would'', ''many'', ''user'',
      ''done'', ''able'', ''almost'', ''want'', ''regard'', ''regarding'', ''like'',
      ''therefore'', ''another'', ''give'', ''hereby'', ''given'', ''thanking'',
      ''taking'', ''srns'', ''came'', ''following'', ''whether'', ''mention'', ''kind'',
      ''along'', ''whereas'', ''enable'', ''shall'', ''herewith'', ''without'',
      ''accordingly'', ''cannot'', ''come'', ''provided'', ''instead'', ''towards'',
      ''xbrl'', ''making'', ''whose'', ''takes'', ''thankyou'', ''obtain'', ''obtained'',
      ''asked'', ''madam'', ''team'', ''needful'', ''much'', ''sir'']"

definition operators :: "string list" where
  "operators =
     [''not'', ''un'', ''got'', ''and'', ''or'', ''other'', ''i'', ''dont'',
      ''know'', ''there'', ''many'', ''too'', ''add'', ''my'']"

definition initialize_stop_words :: "nltk \<Rightarrow> string set" where
  "initialize_stop_words lib =
     (set (stopwords_english lib) \<union> set domain_stop_words) - set operators"

text \<open>
  \<open>__init__\<close>. \<open>base_dir\<close> stands for \<open>Path(__file__).parent.parent\<close>; an argument that
  is \<open>None\<close> or empty is replaced by the default path, as \<open>or\<close> does.
\<close>

definition init :: "nltk \<Rightarrow> string \<Rightarrow> string option \<Rightarrow> string option \<Rightarrow> ticket_clustering" where
  "init lib base_dir input output =
     \<lparr> input_file =
         (case input of
            Some f \<Rightarrow> if f = [] then base_dir @ ''/data/raw/unanswered_reports.csv'' else f
          | None \<Rightarrow> base_dir @ ''/data/raw/unanswered_reports.csv''),
       output_file =
         (case output of
            Some f \<Rightarrow> if f = [] then base_dir @ ''/output/clustered_tickets.csv'' else f
          | None \<Rightarrow> base_dir @ ''/output/clustered_tickets.csv''),
       lemmatizer = wordnet_lemmatize lib,
       stop_words = initialize_stop_words lib \<rparr>"

text \<open>
  \<open>preprocess_text\<close>, one binding per statement of the source. The argument is the
  result of \<open>str(text)\<close>.
\<close>

definition preprocess_text :: "ticket_clustering \<Rightarrow> string \<Rightarrow> string" where
  "preprocess_text self text =
     (let text = lower text;
          text = sub_non_alpha text;
          text = remove_greetings text;
          tokens = split text;
          tokens = map (lemmatizer self) (filter (\<lambda>token. token \<notin> stop_words self) tokens);
          text = join '' '' tokens;
          text = replace_char CHR '','' (replace_char CHR ''.'' text);
          text = remove_short_words text;
          text = collapse_whitespace text
      in strip text)"


section \<open>Errors and the external libraries\<close>

datatype error =
  ValueError string
| KeyError string
| IndexError string
| TypeError string
| OSError string

text \<open>
  The feature matrix is the dense array \<open>X.toarray()\<close>, one row per document; the
  source reads nothing of it but its number of rows. Scores are reals: a silhouette
  score is a finite number in \<open>[-1, 1]\<close>.
\<close>

type_synonym matrix = "real list list"

text \<open>The keyword arguments of \<open>KMeans\<close>; \<open>init_method\<close> is the keyword \<open>init\<close>.\<close>

record kmeans_params =
  n_clusters :: int
  init_method :: string
  max_iter :: nat
  n_init :: nat
  random_state :: int

text \<open>
  What the module takes from scikit-learn, as parameters. Each call either raises or
  returns:
  \<^item> \<open>tfidf_fit_transform\<close> is \<open>TfidfVectorizer(stop_words='english', min_df=2).fit_transform\<close>;
  \<^item> \<open>kmeans_fit params X\<close> is \<open>KMeans(**params).fit(X).labels_\<close>; with an integer
    \<open>random_state\<close> it is a function of its arguments;
  \<^item> \<open>silhouette_score X labels\<close> is the function of that name.
\<close>

record sklearn =
  tfidf_fit_transform :: "string list \<Rightarrow> error + matrix"
  kmeans_fit :: "kmeans_params \<Rightarrow> matrix \<Rightarrow> error + int list"
  silhouette_score :: "matrix \<Rightarrow> int list \<Rightarrow> error + real"

text \<open>The calls made to scikit-learn, in the order they are made.\<close>

datatype call =
  TfidfCall "string list"
| KMeansCall kmeans_params matrix "error + int list"
| SilhouetteCall "int list"

section \<open>Choosing the number of clusters\<close>

text \<open>
  \<open>np.argmax\<close> on a list of scores: the index of the first occurrence of the maximum;
  an empty list raises \<open>ValueError\<close>. \<open>argmax_from xs i best_i best\<close> scans the rest of
  the list from index \<open>i\<close> and replaces the best index only by a strictly larger score.
\<close>

fun argmax_from :: "real list \<Rightarrow> nat \<Rightarrow> nat \<Rightarrow> real \<Rightarrow> nat" where
  "argmax_from [] i best_i best = best_i"
| "argmax_from (x # xs) i best_i best =
     (if best < x then argmax_from xs (Suc i) i x else argmax_from xs (Suc i) best_i best)"

definition argmax :: "real list \<Rightarrow> error + nat" where
  "argmax xs =
     (case xs of
        [] \<Rightarrow> Inl (ValueError ''attempt to get argmax of an empty sequence'')
      | x # rest \<Rightarrow> Inr (argmax_from rest 1 0 x))"

text \<open>
  The body of the loop \<open>for k in K\<close>: fit, then score. The result carries the calls
  made, also when one of them raises.
\<close>

definition evaluate_candidate :: "sklearn \<Rightarrow> matrix \<Rightarrow> int \<Rightarrow> call list \<times> (error + real)" where
  "evaluate_candidate sk X k =
     (let params = \<lparr> n_clusters = k, init_method = ''k-means++'', max_iter = 300,
                      n_init = 10, random_state = 42 \<rparr>;
          fitted = kmeans_fit sk params X
      in case fitted of
           Inl e \<Rightarrow> ([KMeansCall params X fitted], Inl e)
         | Inr labels \<Rightarrow>
             ([KMeansCall params X fitted, SilhouetteCall labels], silhouette_score sk X labels))"

text \<open>The loop itself, with the list \<open>silhouette_scores\<close> and the trace of calls as accumulators.\<close>

fun score_candidates ::
  "sklearn \<Rightarrow> matrix \<Rightarrow> int list \<Rightarrow> real list \<Rightarrow> call list \<Rightarrow> call list \<times> (error + real list)" where
  "score_candidates sk X [] silhouette_scores trace = (trace, Inr silhouette_scores)"
| "score_candidates sk X (k # ks) silhouette_scores trace =
     (case evaluate_candidate sk X k of
        (calls, Inl e) \<Rightarrow> (trace @ calls, Inl e)
      | (calls, Inr score) \<Rightarrow>
          score_candidates sk X ks (silhouette_scores @ [score]) (trace @ calls))"

text \<open>
  Everything after \<open>K\<close> is fixed: the loop over \<open>K\<close> and \<open>K[np.argmax(silhouette_scores)]\<close>.
\<close>

definition select_from :: "sklearn \<Rightarrow> matrix \<Rightarrow> int list \<Rightarrow> call list \<times> (error + int)" where
  "select_from sk X K =
     (case score_candidates sk X K [] [] of
        (trace, Inl e) \<Rightarrow> (trace, Inl e)
      | (trace, Inr silhouette_scores) \<Rightarrow>
          (case argmax silhouette_scores of
             Inl e \<Rightarrow> (trace, Inl e)
           | Inr i \<Rightarrow>
               if i < length K then (trace, Inr (K ! i))
               else (trace, Inl (IndexError ''range object index out of range''))))"

text \<open>\<open>find_optimal_clusters\<close>; \<open>range(2, max_clusters + 1)\<close> is the list \<open>[2..max_clusters]\<close>.\<close>

definition find_optimal_clusters :: "sklearn \<Rightarrow> matrix \<Rightarrow> int \<Rightarrow> call list \<times> (error + int)" where
  "find_optimal_clusters sk X max_clusters =
     (let max_clusters = min max_clusters (int (length X) div 8);
          K = [2..max_clusters]
      in select_from sk X K)"


section \<open>Data frames\<close>

text \<open>
  A cell of a frame read from a CSV file: a string, an integer, or the missing value.
  (A float cell other than the missing value is not modelled.)
\<close>

datatype cell = Str string | Num int | NaN

function str_nat :: "nat \<Rightarrow> string" where
  "str_nat n = (if n < 10 then [digits ! n] else str_nat (n div 10) @ [digits ! (n mod 10)])"
  by pat_completeness auto
termination
  by (relation "measure id") auto

declare str_nat.simps [simp del]

text \<open>\<open>str(text)\<close> on a cell.\<close>

fun py_str :: "cell \<Rightarrow> string" where
  "py_str (Str s) = s"
| "py_str (Num i) = (if i < 0 then ''-'' @ str_nat (nat (- i)) else str_nat (nat i))"
| "py_str NaN = ''nan''"

text \<open>
  A frame is its column names and its rows, each row holding one cell per column. The
  row index is left out: no step of \<open>cluster_tickets\<close> aligns on it (every column it
  assigns comes from an array or from \<open>apply\<close> on the same frame), and the file is written
  with \<open>index=False\<close>.
\<close>

record dataframe =
  columns :: "string list"
  rows :: "cell list list"

definition well_formed :: "dataframe \<Rightarrow> bool" where
  "well_formed df \<longleftrightarrow> distinct (columns df) \<and> list_all (\<lambda>r. length r = length (columns df)) (rows df)"

fun index_of :: "'a \<Rightarrow> 'a list \<Rightarrow> nat option" where
  "index_of x [] = None"
| "index_of x (y # ys) = (if x = y then Some 0 else map_option Suc (index_of x ys))"

text \<open>\<open>df[name]\<close>.\<close>

definition get_column :: "dataframe \<Rightarrow> string \<Rightarrow> error + cell list" where
  "get_column df name =
     (case index_of name (columns df) of
        None \<Rightarrow> Inl (KeyError name)
      | Some i \<Rightarrow> Inr (map (\<lambda>r. r ! i) (rows df)))"

text \<open>\<open>df[[name, ...]]\<close>: a missing name raises \<open>KeyError\<close>.\<close>

definition select_columns :: "dataframe \<Rightarrow> string list \<Rightarrow> error + dataframe" where
  "select_columns df names =
     (case those (map (\<lambda>n. index_of n (columns df)) names) of
        None \<Rightarrow> Inl (KeyError ''not in index'')
      | Some idxs \<Rightarrow> Inr \<lparr> columns = names, rows = map (\<lambda>r. map (\<lambda>i. r ! i) idxs) (rows df) \<rparr>)"

text \<open>
  \<open>df[name] = values\<close> for an array \<open>values\<close>: the assignment is by position and raises
  \<open>ValueError\<close> unless there is exactly one value per row; an existing column is
  overwritten, a new one is appended.
\<close>

definition set_column :: "dataframe \<Rightarrow> string \<Rightarrow> cell list \<Rightarrow> error + dataframe" where
  "set_column df name vals =
     (if length vals \<noteq> length (rows df) then
        Inl (ValueError ''Length of values does not match length of index'')
      else
        (case index_of name (columns df) of
           Some i \<Rightarrow> Inr (df\<lparr> rows := map (\<lambda>(r, v). r[i := v]) (zip (rows df) vals) \<rparr>)
         | None \<Rightarrow>
             Inr \<lparr> columns = columns df @ [name],
                   rows = map (\<lambda>(r, v). r @ [v]) (zip (rows df) vals) \<rparr>))"

text \<open>\<open>df[mask]\<close> for a boolean mask with one entry per row.\<close>

definition filter_rows :: "dataframe \<Rightarrow> bool list \<Rightarrow> dataframe" where
  "filter_rows df keep = df\<lparr> rows := map fst (filter snd (zip (rows df) keep)) \<rparr>"

text \<open>
  What the program takes from pandas and does not compute itself: the file system as
  \<open>pd.read_csv\<close> sees it, and the order in which a sort leaves rows with equal keys.
  \<open>sort_values\<close> sorts with its default \<open>kind='quicksort'\<close>, which is not stable;
  \<open>quicksort_ties keys p\<close> is the rank that the sort gives the row at position \<open>p\<close>
  among the rows with the same key, when the keys of the rows are \<open>keys\<close>.
\<close>

record pandas =
  read_csv :: "string \<Rightarrow> error + dataframe"
  quicksort_ties :: "int list \<Rightarrow> nat \<Rightarrow> nat"

text \<open>
  \<open>df.sort_values(name)\<close> on a column of integers: ascending, rows with a missing value
  last, in their original order. A column that holds a string raises in the model;
  pandas raises too when strings and integers are mixed, and the program never sorts by
  a column of strings. Rows with equal keys come in the order of their ranks
  \<open>quicksort_ties\<close> (and in their original order where the ranks are equal).
\<close>

fun is_number :: "cell \<Rightarrow> bool" where
  "is_number (Num i) = True"
| "is_number c = False"

fun the_number :: "cell \<Rightarrow> int" where
  "the_number (Num i) = i"
| "the_number c = 0"

definition sort_values :: "pandas \<Rightarrow> dataframe \<Rightarrow> string \<Rightarrow> error + dataframe" where
  "sort_values pd df name =
     (case index_of name (columns df) of
        None \<Rightarrow> Inl (KeyError name)
      | Some i \<Rightarrow>
          if list_ex (\<lambda>r. \<not> is_number (r ! i) \<and> r ! i \<noteq> NaN) (rows df) then
            Inl (TypeError ''< not supported between instances of str and int'')
          else
            (let numbered = filter (\<lambda>r. is_number (r ! i)) (rows df);
                 keys = map (\<lambda>r. the_number (r ! i)) numbered;
                 ranked = sort_key (\<lambda>(p, r). quicksort_ties pd keys p)
                            (zip [0..<length numbered] numbered)
             in Inr (df\<lparr> rows :=
                      map snd (sort_key (\<lambda>(p, r). the_number (r ! i)) ranked)
                      @ filter (\<lambda>r. r ! i = NaN) (rows df) \<rparr>)))"

section \<open>The workflow\<close>

text \<open>
  \<open>cluster_tickets\<close> up to the line that prints the number of clean records: the frame
  with the added column \<open>Description_clean\<close>, and its rows whose clean text is not empty.
\<close>

definition load_and_clean ::
  "ticket_clustering \<Rightarrow> pandas \<Rightarrow> error + (dataframe \<times> dataframe)" where
  "load_and_clean self pd =
     (case read_csv pd (input_file self) of
        Inl e \<Rightarrow> Inl e
      | Inr df \<Rightarrow>
     (case select_columns df [''Inquiry_id'', ''Question''] of
        Inl e \<Rightarrow> Inl e
      | Inr df \<Rightarrow>
     (case get_column df ''Question'' of
        Inl e \<Rightarrow> Inl e
      | Inr question \<Rightarrow>
     (case set_column df ''Description_clean''
             (map (\<lambda>text. Str (preprocess_text self (py_str text))) question) of
        Inl e \<Rightarrow> Inl e
      | Inr df \<Rightarrow>
     (case get_column df ''Description_clean'' of
        Inl e \<Rightarrow> Inl e
      | Inr cleaned \<Rightarrow>
          Inr (df, filter_rows df (map (\<lambda>c. c \<noteq> Str []) cleaned)))))))"

text \<open>
  The rest of \<open>cluster_tickets\<close>. The result is the trace of calls to scikit-learn and
  either the error raised or the path and frame handed to \<open>to_csv\<close>. The console output
  is left out, and so is \<open>_analyze_clusters\<close>, which only prints.
\<close>

definition cluster_tickets ::
  "ticket_clustering \<Rightarrow> pandas \<Rightarrow> sklearn \<Rightarrow> call list \<times> (error + string \<times> dataframe)" where
  "cluster_tickets self pd sk =
     (case load_and_clean self pd of
        Inl e \<Rightarrow> ([], Inl e)
      | Inr (df, clean_data) \<Rightarrow>
     (case get_column clean_data ''Description_clean'' of
        Inl e \<Rightarrow> ([], Inl e)
      | Inr description_clean \<Rightarrow>
     (let docs = map py_str description_clean;
          trace = [TfidfCall docs]
      in
     (case tfidf_fit_transform sk docs of
        Inl e \<Rightarrow> (trace, Inl e)
      | Inr X \<Rightarrow>
     (case find_optimal_clusters sk X 10 of
        (calls, Inl e) \<Rightarrow> (trace @ calls, Inl e)
      | (calls, Inr optimal_k) \<Rightarrow>
     (let params = \<lparr> n_clusters = optimal_k, init_method = ''k-means++'', max_iter = 300,
                      n_init = 10, random_state = 42 \<rparr>;
          fitted = kmeans_fit sk params X;
          trace = trace @ calls @ [KMeansCall params X fitted]
      in
     (case fitted of
        Inl e \<Rightarrow> (trace, Inl e)
      | Inr labels \<Rightarrow>
     (case set_column clean_data ''Label'' (map Num labels) of
        Inl e \<Rightarrow> (trace, Inl e)
      | Inr clean_data \<Rightarrow>
     (case set_column df ''Label'' (map Num labels) of
        Inl e \<Rightarrow> (trace, Inl e)
      | Inr df \<Rightarrow>
     (case sort_values pd df ''Label'' of
        Inl e \<Rightarrow> (trace, Inl e)
      | Inr sorted_df \<Rightarrow> (trace, Inr (output_file self, sorted_df))))))))))))"

section \<open>Notions used to state the results\<close>

text \<open>
  The silhouette score of the labelling that \<open>KMeans\<close> gives for \<open>k\<close> clusters, with the
  parameters the selection loop passes; or the error that one of the two calls raises.
\<close>

definition candidate_score :: "sklearn \<Rightarrow> matrix \<Rightarrow> int \<Rightarrow> error + real" where
  "candidate_score sk X k =
     (case kmeans_fit sk \<lparr> n_clusters = k, init_method = ''k-means++'', max_iter = 300,
                             n_init = 10, random_state = 42 \<rparr> X of
        Inl e \<Rightarrow> Inl e
      | Inr labels \<Rightarrow> silhouette_score sk X labels)"


text \<open>\<open>r\<close> is the index of the first occurrence of the maximum of \<open>zs\<close>.\<close>

definition first_max :: "real list \<Rightarrow> nat \<Rightarrow> bool" where
  "first_max zs r \<longleftrightarrow>
     r < length zs \<and> (\<forall>j < length zs. zs ! j \<le> zs ! r) \<and> (\<forall>j < r. zs ! j < zs ! r)"

text \<open>What \<open>load_and_clean\<close> returns when the file can be read and has both columns.\<close>

definition with_clean_text :: "ticket_clustering \<Rightarrow> cell list \<Rightarrow> cell list \<Rightarrow> dataframe" where
  "with_clean_text self ids qs =
     \<lparr> columns = [''Inquiry_id'', ''Question'', ''Description_clean''],
       rows = map (\<lambda>(i, q). [i, q, Str (preprocess_text self (py_str q))]) (zip ids qs) \<rparr>"

text \<open>
  The maximal runs of characters that satisfy \<open>P\<close>, from left to right; the words of a
  string in the sense of \<open>\b\<close> are its runs of word characters.
\<close>

function runs :: "(char \<Rightarrow> bool) \<Rightarrow> string \<Rightarrow> string list" where
  "runs P [] = []"
| "runs P (c # cs) =
     (if P c then (c # takeWhile P cs) # runs P (dropWhile P cs) else runs P cs)"
  by pat_completeness auto
termination
  by (relation "measure (\<lambda>(P, s). length s)") (auto simp: length_dropWhile_le less_Suc_eq_le)

definition word_runs :: "string \<Rightarrow> string list" where
  "word_runs s = runs is_word s"

text \<open>
  The tokens of a text as \<open>preprocess_text\<close> forms them (after lowering, blanking and
  the removal of greetings), and those it hands to the lemmatiser.
\<close>

definition tokenize :: "string \<Rightarrow> string list" where
  "tokenize text = split (remove_greetings (sub_non_alpha (lower text)))"

definition kept_tokens :: "ticket_clustering \<Rightarrow> string \<Rightarrow> string list" where
  "kept_tokens self text = filter (\<lambda>token. token \<notin> stop_words self) (tokenize text)"

section \<open>Concrete inputs\<close>

text \<open>
  Stand-ins for scikit-learn, used only where a statement is evaluated at a concrete
  input. Both vectorise a document into one number and raise on an empty corpus, as
  \<open>TfidfVectorizer\<close> does (``empty vocabulary'').

  \<open>sk_two_points\<close> behaves as scikit-learn does on a matrix with two distinct rows:
  whatever \<open>n_clusters\<close> is, \<open>KMeans\<close> finds the two groups of equal rows, and their
  silhouette score is 1.
\<close>

definition sk_two_points :: sklearn where
  "sk_two_points =
     \<lparr> tfidf_fit_transform =
         (\<lambda>docs. if docs = [] then Inl (ValueError ''empty vocabulary'')
                  else Inr (map (\<lambda>d. [if d = hd docs then 1 else 0]) docs)),
       kmeans_fit = (\<lambda>params X. Inr (map (\<lambda>row. if row = hd X then 0 else 1) X)),
       silhouette_score = (\<lambda>X labels. Inr 1) \<rparr>"

text \<open>
  \<open>sk_round_robin\<close> deals the rows to the clusters in turn and scores a labelling with
  three clusters higher than any other.
\<close>

definition sk_round_robin :: sklearn where
  "sk_round_robin =
     \<lparr> tfidf_fit_transform =
         (\<lambda>docs. if docs = [] then Inl (ValueError ''empty vocabulary'')
                  else Inr (map (\<lambda>d. [real (length d)]) docs)),
       kmeans_fit = (\<lambda>params X. Inr (map (\<lambda>i. int i mod n_clusters params) [0..<length X])),
       silhouette_score =
         (\<lambda>X labels. Inr (if length (remdups labels) = 3 then 1 / 2 else 1 / 4)) \<rparr>"

text \<open>
  \<open>sk_checked\<close> clusters as \<open>sk_two_points\<close> does and, as scikit-learn's
  \<open>silhouette_score\<close>, raises when the labelling has fewer than two clusters; so it does
  on a matrix of equal rows, which \<open>KMeans\<close> puts in one cluster.
\<close>

definition sk_checked :: sklearn where
  "sk_checked =
     \<lparr> tfidf_fit_transform =
         (\<lambda>docs. if docs = [] then Inl (ValueError ''empty vocabulary'')
                  else Inr (map (\<lambda>d. [if d = hd docs then 1 else 0]) docs)),
       kmeans_fit = (\<lambda>params X. Inr (map (\<lambda>row. if row = hd X then 0 else 1) X)),
       silhouette_score =
         (\<lambda>X labels. if length (remdups labels) < 2
                      then Inl (ValueError ''Number of labels is 1. Valid values are 2 to n_samples - 1 (inclusive)'')
                      else Inr 1) \<rparr>"


text \<open>
  A stand-in for NLTK: an excerpt of its English stop-word list, and a lemmatiser that
  knows three plurals and returns every other word unchanged, as WordNet's does for a
  word it has no entry for.
\<close>

definition nltk_excerpt :: nltk where
  "nltk_excerpt =
     \<lparr> stopwords_english =
         [''i'', ''me'', ''my'', ''myself'', ''we'', ''our'', ''you'', ''your'', ''he'', ''she'',
          ''it'', ''its'', ''they'', ''them'', ''what'', ''which'', ''who'', ''this'', ''that'',
          ''am'', ''is'', ''are'', ''was'', ''were'', ''be'', ''been'', ''have'', ''has'', ''had'',
          ''do'', ''does'', ''did'', ''a'', ''an'', ''the'', ''and'', ''but'', ''if'', ''or'',
          ''as'', ''of'', ''at'', ''by'', ''for'', ''with'', ''to'', ''from'', ''in'', ''out'',
          ''on'', ''off'', ''there'', ''other'', ''no'', ''nor'', ''not'', ''too'', ''very'',
          ''can'', ''will'', ''just'', ''now''],
       wordnet_lemmatize =
         (\<lambda>word. case map_of [(''needs'', ''need''), (''printers'', ''printer''),
                                  (''passwords'', ''password'')] word of
                    Some lemma \<Rightarrow> lemma
                  | None \<Rightarrow> word) \<rparr>"

definition sample_clustering :: ticket_clustering where
  "sample_clustering = init nltk_excerpt ''/repo'' None None"

text \<open>
  Sixteen tickets on two subjects, in alternation, in a file with a third column; the
  same with a seventeenth ticket that holds a greeting only; and two tickets that hold
  nothing but greetings and digits.
\<close>

definition tickets16 :: dataframe where
  "tickets16 =
     \<lparr> columns = [''Inquiry_id'', ''Question'', ''Status''],
       rows = map (\<lambda>i. [Num (int i),
                          Str (if even i then ''Printer jam!''
                               else ''Reset my password''),
                          Str ''open''])
                  [0..<16] \<rparr>"

definition tickets17 :: dataframe where
  "tickets17 = tickets16\<lparr> rows := rows tickets16 @ [[Num 16, Str ''Hi'', Str ''open'']] \<rparr>"

definition greetings_only :: dataframe where
  "greetings_only =
     \<lparr> columns = [''Inquiry_id'', ''Question''],
       rows = [[Num 1, Str ''Hi''], [Num 2, Str ''Hello 123'']] \<rparr>"

text \<open>
  A file system that holds one frame, at the default input path, with a sort that leaves
  rows with equal keys in their original order: one of the orders that the quicksort
  of NumPy may give, which promises none.
\<close>

definition pandas_with :: "dataframe \<Rightarrow> pandas" where
  "pandas_with df =
     \<lparr> read_csv =
         (\<lambda>path. if path = ''/repo/data/raw/unanswered_reports.csv'' then Inr df
                  else Inl (OSError ''No such file or directory'')),
       quicksort_ties = (\<lambda>keys p. p) \<rparr>"

text \<open>
  What the workflow does on the sixteen tickets: the calls it makes and the frame it
  writes. The order of the rows with the same label is that of the sort of
  \<open>pandas_with\<close>; with another \<open>quicksort_ties\<close> the eight rows of each label come in
  another order.
\<close>

definition labels16 :: "int list" where
  "labels16 = map (\<lambda>i. if even i then 0 else 1) [0..<16]"

definition matrix16 :: matrix where
  "matrix16 = map (\<lambda>i. [if even i then 1 else 0]) [0..<16]"

definition trace16 :: "call list" where
  "trace16 =
     [TfidfCall (map (\<lambda>i. if even i then ''printer jam'' else ''reset password'')
                     [0..<16]),
      KMeansCall \<lparr> n_clusters = 2, init_method = ''k-means++'', max_iter = 300,
                    n_init = 10, random_state = 42 \<rparr> matrix16 (Inr labels16),
      SilhouetteCall labels16,
      KMeansCall \<lparr> n_clusters = 2, init_method = ''k-means++'', max_iter = 300,
                    n_init = 10, random_state = 42 \<rparr> matrix16 (Inr labels16)]"

definition output16 :: dataframe where
  "output16 =
     \<lparr> columns = [''Inquiry_id'', ''Question'', ''Description_clean'', ''Label''],
       rows =
         map (\<lambda>i. [Num (2 * int i), Str ''Printer jam!'',
                    Str ''printer jam'', Num 0]) [0..<8]
         @ map (\<lambda>i. [Num (2 * int i + 1), Str ''Reset my password'',
                      Str ''reset password'', Num 1]) [0..<8] \<rparr>"

section \<open>Evaluation\<close>

text \<open>
  The stop-word set as one list, so that a membership test at a concrete input scans a
  list instead of first forming the union and the difference.
\<close>

lemma initialize_stop_words_code [code]:
  "initialize_stop_words lib =
     set (filter (\<lambda>w. w \<notin> set operators) (stopwords_english lib @ domain_stop_words))"
  by (auto simp: initialize_stop_words_def)

section \<open>The selector: auxiliary facts\<close>

lemma first_max_snoc_greater:
  assumes "first_max ys b" "ys ! b < x"
  shows "first_max (ys @ [x]) (length ys)"
  using assms unfolding first_max_def
  by (auto simp: nth_append less_Suc_eq intro: le_less_trans less_imp_le)

lemma first_max_snoc_keep:
  assumes "first_max ys b" "\<not> ys ! b < x"
  shows "first_max (ys @ [x]) b"
  using assms unfolding first_max_def
  by (auto simp: nth_append less_Suc_eq)

lemma argmax_from_first_max:
  "first_max ys b \<Longrightarrow> first_max (ys @ xs) (argmax_from xs (length ys) b (ys ! b))"
proof (induction xs arbitrary: ys b)
  case Nil
  then show ?case by simp
next
  case (Cons x xs)
  show ?case
  proof (cases "ys ! b < x")
    case True
    from first_max_snoc_greater [OF Cons.prems True]
    have "first_max ((ys @ [x]) @ xs) (argmax_from xs (length (ys @ [x])) (length ys) ((ys @ [x]) ! length ys))"
      by (rule Cons.IH)
    with True show ?thesis by simp
  next
    case False
    from Cons.prems have b: "b < length ys" by (simp add: first_max_def)
    from first_max_snoc_keep [OF Cons.prems False]
    have "first_max ((ys @ [x]) @ xs) (argmax_from xs (length (ys @ [x])) b ((ys @ [x]) ! b))"
      by (rule Cons.IH)
    with False b show ?thesis by (simp add: nth_append)
  qed
qed

lemma argmax_first_max: "argmax xs = Inr r \<Longrightarrow> first_max xs r"
proof (cases xs)
  case Nil
  assume "argmax xs = Inr r"
  with Nil show ?thesis by (simp add: argmax_def)
next
  case (Cons x rest)
  assume a: "argmax xs = Inr r"
  have "first_max [x] 0" by (simp add: first_max_def)
  from argmax_from_first_max [OF this, of rest]
  have "first_max (x # rest) (argmax_from rest 1 0 x)" by simp
  with a Cons show ?thesis by (simp add: argmax_def)
qed

lemma argmax_empty: "argmax [] = Inl (ValueError ''attempt to get argmax of an empty sequence'')"
  by (simp add: argmax_def)

lemma argmax_nonempty: "xs \<noteq> [] \<Longrightarrow> \<exists>r. argmax xs = Inr r"
  by (cases xs) (simp_all add: argmax_def)

lemma evaluate_candidate_score:
  "snd (evaluate_candidate sk X k) = candidate_score sk X k"
  by (simp add: evaluate_candidate_def candidate_score_def Let_def split: sum.splits)

lemma score_candidates_scores:
  "score_candidates sk X ks acc tr = (tr', Inr scores) \<Longrightarrow>
   \<exists>ss. scores = acc @ ss \<and> map (candidate_score sk X) ks = map Inr ss"
proof (induction ks arbitrary: acc tr)
  case Nil
  then show ?case by simp
next
  case (Cons k ks)
  from Cons.prems obtain calls s where ev: "evaluate_candidate sk X k = (calls, Inr s)"
    and rest: "score_candidates sk X ks (acc @ [s]) (tr @ calls) = (tr', Inr scores)"
    by (auto split: prod.splits sum.splits)
  from Cons.IH [OF rest] obtain ss where "scores = (acc @ [s]) @ ss"
    and "map (candidate_score sk X) ks = map Inr ss" by blast
  with ev have "scores = acc @ (s # ss) \<and> map (candidate_score sk X) (k # ks) = map Inr (s # ss)"
    by (simp add: evaluate_candidate_score [symmetric])
  then show ?case by blast
qed

lemma score_candidates_total:
  "\<forall>k \<in> set ks. \<exists>s. candidate_score sk X k = Inr s \<Longrightarrow>
   \<exists>tr' scores. score_candidates sk X ks acc tr = (tr', Inr scores)"
proof (induction ks arbitrary: acc tr)
  case Nil
  then show ?case by simp
next
  case (Cons k ks)
  from Cons.prems obtain s where "candidate_score sk X k = Inr s" by auto
  then obtain calls where ev: "evaluate_candidate sk X k = (calls, Inr s)"
    by (cases "evaluate_candidate sk X k") (simp add: evaluate_candidate_score [symmetric])
  from Cons.prems have "\<forall>k \<in> set ks. \<exists>s. candidate_score sk X k = Inr s" by simp
  from Cons.IH [OF this, of "acc @ [s]" "tr @ calls"] ev show ?case by simp
qed

lemma evaluate_candidate_calls:
  "KMeansCall p M r \<in> set (fst (evaluate_candidate sk X k)) \<Longrightarrow> n_clusters p = k"
  by (auto simp: evaluate_candidate_def Let_def split: sum.splits)

lemma score_candidates_trace:
  "score_candidates sk X ks acc tr = (tr', res) \<Longrightarrow> KMeansCall p M r \<in> set tr' \<Longrightarrow>
   KMeansCall p M r \<in> set tr \<or> n_clusters p \<in> set ks"
proof (induction ks arbitrary: acc tr)
  case Nil
  then show ?case by simp
next
  case (Cons k ks)
  obtain calls sc where ev: "evaluate_candidate sk X k = (calls, sc)"
    by (cases "evaluate_candidate sk X k")
  show ?case
  proof (cases sc)
    case (Inl e)
    with Cons.prems ev have "tr' = tr @ calls" by simp
    with Cons.prems(2) have "KMeansCall p M r \<in> set tr \<or> KMeansCall p M r \<in> set calls" by auto
    with ev evaluate_candidate_calls [of p M r sk X k] show ?thesis by auto
  next
    case (Inr s)
    with Cons.prems ev have "score_candidates sk X ks (acc @ [s]) (tr @ calls) = (tr', res)" by simp
    from Cons.IH [OF this Cons.prems(2)]
    have "KMeansCall p M r \<in> set tr \<or> KMeansCall p M r \<in> set calls \<or> n_clusters p \<in> set ks" by auto
    with ev evaluate_candidate_calls [of p M r sk X k] show ?thesis by auto
  qed
qed

lemma select_from_trace:
  "KMeansCall p M r \<in> set (fst (select_from sk X K)) \<Longrightarrow> n_clusters p \<in> set K"
proof -
  assume a: "KMeansCall p M r \<in> set (fst (select_from sk X K))"
  obtain tr' res where sc: "score_candidates sk X K [] [] = (tr', res)"
    by (cases "score_candidates sk X K [] []")
  then have "fst (select_from sk X K) = tr'"
    by (auto simp: select_from_def split: sum.splits)
  with a score_candidates_trace [OF sc, of p M r] show ?thesis by simp
qed

lemma select_from_empty:
  "select_from sk X [] = ([], Inl (ValueError ''attempt to get argmax of an empty sequence''))"
  by (simp add: select_from_def argmax_def)

lemma select_from_Inr:
  assumes "snd (select_from sk X K) = Inr k"
  shows "\<exists>ss r. map (candidate_score sk X) K = map Inr ss \<and> first_max ss r \<and> k = K ! r"
proof -
  obtain tr' res where sc: "score_candidates sk X K [] [] = (tr', res)"
    by (cases "score_candidates sk X K [] []")
  with assms obtain scores where res: "res = Inr scores"
    by (cases res) (simp_all add: select_from_def)
  from score_candidates_scores [of sk X K "[]" "[]" tr' scores] sc res
  have m: "map (candidate_score sk X) K = map Inr scores" by simp
  from assms sc res obtain r where am: "argmax scores = Inr r" and k: "k = K ! r"
    by (auto simp: select_from_def split: sum.splits if_splits)
  from argmax_first_max [OF am] m k show ?thesis by blast
qed

lemma select_from_total:
  assumes "K \<noteq> []" "\<forall>k \<in> set K. \<exists>s. candidate_score sk X k = Inr s"
  shows "\<exists>k. snd (select_from sk X K) = Inr k"
proof -
  from score_candidates_total [OF assms(2), of "[]" "[]"]
  obtain tr' scores where sc: "score_candidates sk X K [] [] = (tr', Inr scores)" by blast
  from score_candidates_scores [OF sc] have m: "map (candidate_score sk X) K = map Inr scores" by simp
  then have len: "length scores = length K" by (metis length_map)
  with assms(1) have "scores \<noteq> []" by auto
  from argmax_nonempty [OF this] obtain r where am: "argmax scores = Inr r" by blast
  from argmax_first_max [OF am] len have "r < length K" by (simp add: first_max_def)
  with sc am show ?thesis by (simp add: select_from_def)
qed

lemma map_Inr_nth:
  "map f K = map Inr ss \<Longrightarrow> i < length K \<Longrightarrow> f (K ! i) = Inr (ss ! i)"
  by (metis length_map nth_map)

lemma find_optimal_clusters_select:
  "find_optimal_clusters sk X max_clusters =
   select_from sk X [2..min max_clusters (int (length X) div 8)]"
  by (simp add: find_optimal_clusters_def Let_def)

lemma score_candidates_Inr_iff:
  "(\<exists>tr' ss. score_candidates sk X ks acc tr = (tr', Inr ss)) \<longleftrightarrow>
   (\<forall>k \<in> set ks. \<exists>s. candidate_score sk X k = Inr s)"
proof
  assume "\<exists>tr' ss. score_candidates sk X ks acc tr = (tr', Inr ss)"
  then obtain tr' ss where sc: "score_candidates sk X ks acc tr = (tr', Inr ss)" by blast
  from score_candidates_scores [OF sc] obtain ss' where
    m: "map (candidate_score sk X) ks = map Inr ss'" by blast
  show "\<forall>k \<in> set ks. \<exists>s. candidate_score sk X k = Inr s"
  proof
    fix k assume "k \<in> set ks"
    then obtain i where i: "i < length ks" and k: "ks ! i = k" by (auto simp: in_set_conv_nth)
    from map_Inr_nth [OF m i] k show "\<exists>s. candidate_score sk X k = Inr s" by auto
  qed
next
  assume "\<forall>k \<in> set ks. \<exists>s. candidate_score sk X k = Inr s"
  then show "\<exists>tr' ss. score_candidates sk X ks acc tr = (tr', Inr ss)"
    by (rule score_candidates_total)
qed




lemma select_from_raises:
  assumes "\<not> (\<forall>k \<in> set K. \<exists>s. candidate_score sk X k = Inr s)"
  shows "\<exists>e. snd (select_from sk X K) = Inl e"
proof -
  obtain tr res where sc: "score_candidates sk X K [] [] = (tr, res)"
    by (cases "score_candidates sk X K [] []")
  with assms score_candidates_Inr_iff [of sk X K "[]" "[]"] obtain e where "res = Inl e"
    by (cases res) auto
  with sc show ?thesis by (simp add: select_from_def)
qed





section \<open>The selector: results\<close>

text \<open>
  Claim C2. Whatever the matrix and the upper bound, every \<open>KMeans\<close> run that
  \<open>find_optimal_clusters\<close> makes has a cluster count between 2 and the minimum of the
  upper bound and an eighth of the number of rows (rounded down). When that minimum is
  below 2 nothing is run and the call ends in the \<open>ValueError\<close> that \<open>np.argmax\<close>
  raises on the empty list of scores; and a returned count lies in the range, so it is
  never 1.
\<close>

theorem find_optimal_clusters_range:
  "(\<forall>p M r. KMeansCall p M r \<in> set (fst (find_optimal_clusters sk X max_clusters)) \<longrightarrow>
      2 \<le> n_clusters p \<and> n_clusters p \<le> min max_clusters (int (length X) div 8))
   \<and> (min max_clusters (int (length X) div 8) < 2 \<longrightarrow>
      find_optimal_clusters sk X max_clusters =
        ([], Inl (ValueError ''attempt to get argmax of an empty sequence'')))
   \<and> (\<forall>k. snd (find_optimal_clusters sk X max_clusters) = Inr k \<longrightarrow>
      2 \<le> k \<and> k \<le> min max_clusters (int (length X) div 8))"
proof (intro conjI allI impI)
  fix p M r
  assume "KMeansCall p M r \<in> set (fst (find_optimal_clusters sk X max_clusters))"
  then have "KMeansCall p M r \<in> set (fst (select_from sk X [2..min max_clusters (int (length X) div 8)]))"
    by (simp only: find_optimal_clusters_select)
  then have "n_clusters p \<in> set [2..min max_clusters (int (length X) div 8)]"
    by (rule select_from_trace)
  then show "2 \<le> n_clusters p" and "n_clusters p \<le> min max_clusters (int (length X) div 8)"
    by simp_all
next
  assume "min max_clusters (int (length X) div 8) < 2"
  then have "[2..min max_clusters (int (length X) div 8)] = []" by simp
  then show "find_optimal_clusters sk X max_clusters =
      ([], Inl (ValueError ''attempt to get argmax of an empty sequence''))"
    by (simp add: find_optimal_clusters_select select_from_empty)
next
  fix k
  assume "snd (find_optimal_clusters sk X max_clusters) = Inr k"
  then have "snd (select_from sk X [2..min max_clusters (int (length X) div 8)]) = Inr k"
    by (simp add: find_optimal_clusters_select)
  from select_from_Inr [OF this] obtain ss r where
    m: "map (candidate_score sk X) [2..min max_clusters (int (length X) div 8)] = map Inr ss"
    and fm: "first_max ss r" and k: "k = [2..min max_clusters (int (length X) div 8)] ! r"
    by blast
  from m have "length ss = length [2..min max_clusters (int (length X) div 8)]"
    by (metis length_map)
  with fm have "r < length [2..min max_clusters (int (length X) div 8)]"
    by (simp add: first_max_def)
  then have "k \<in> set [2..min max_clusters (int (length X) div 8)]"
    unfolding k by (rule nth_mem)
  then show "2 \<le> k" and "k \<le> min max_clusters (int (length X) div 8)"
    by simp_all
qed

text \<open>
  The statement at 3 rows, where the range is empty, and at 24 rows, where it is \<open>2, 3\<close>.
\<close>

theorem find_optimal_clusters_range_witness:
  "min 10 (int (length (replicate 3 [0::real])) div 8) < 2
   \<and> find_optimal_clusters sk_round_robin (replicate 3 [0]) 10 =
        ([], Inl (ValueError ''attempt to get argmax of an empty sequence''))
   \<and> snd (find_optimal_clusters sk_round_robin (replicate 24 [0]) 10) = Inr 3
   \<and> 2 \<le> (3::int) \<and> 3 \<le> min 10 (int (length (replicate 24 [0::real])) div 8)"
proof -
  have small: "min 10 (int (length (replicate 3 [0::real])) div 8) < 2" by simp
  have run: "snd (find_optimal_clusters sk_round_robin (replicate 24 [0]) 10) = Inr 3"
    by code_simp
  from find_optimal_clusters_range [of sk_round_robin "replicate 3 [0]" 10] small
  have "find_optimal_clusters sk_round_robin (replicate 3 [0]) 10 =
        ([], Inl (ValueError ''attempt to get argmax of an empty sequence''))"
    by blast
  moreover from find_optimal_clusters_range [of sk_round_robin "replicate 24 [0]" 10] run
  have "2 \<le> (3::int) \<and> 3 \<le> min 10 (int (length (replicate 24 [0::real])) div 8)"
    by blast
  ultimately show ?thesis using small run by blast
qed

text \<open>
  Claim C5, as amended. Let \<open>m\<close> be the effective upper bound, and let the score of a
  candidate \<open>k\<close> be what \<open>silhouette_score\<close> gives for the labels of the \<open>KMeans\<close> run
  with \<open>k\<close> clusters (\<open>candidate_score\<close>). When the range \<open>2..m\<close> is not empty and every
  candidate can be fitted and scored, \<open>find_optimal_clusters\<close> returns a count; when
  the fit or the scoring of some candidate raises, it returns no count and ends in an
  error; and a returned count \<open>k\<close> is a candidate whose score is the largest of all
  candidates and strictly larger than the score of every smaller candidate: the first
  maximum in ascending order.
\<close>

theorem find_optimal_clusters_maximal:
  assumes m: "m = min max_clusters (int (length X) div 8)"
  shows "(2 \<le> m \<and> (\<forall>j \<in> {2..m}. \<exists>t. candidate_score sk X j = Inr t) \<longrightarrow>
           (\<exists>k. snd (find_optimal_clusters sk X max_clusters) = Inr k))
       \<and> ((\<exists>j \<in> {2..m}. \<exists>e. candidate_score sk X j = Inl e) \<longrightarrow>
           (\<exists>e. snd (find_optimal_clusters sk X max_clusters) = Inl e))
       \<and> (\<forall>k. snd (find_optimal_clusters sk X max_clusters) = Inr k \<longrightarrow>
           k \<in> {2..m} \<and>
           (\<exists>s. candidate_score sk X k = Inr s
              \<and> (\<forall>j \<in> {2..m}. \<exists>t. candidate_score sk X j = Inr t \<and> t \<le> s)
              \<and> (\<forall>j \<in> {2..m}. j < k \<longrightarrow> (\<exists>t. candidate_score sk X j = Inr t \<and> t < s))))"
proof (intro conjI allI impI)
  assume a: "2 \<le> m \<and> (\<forall>j \<in> {2..m}. \<exists>t. candidate_score sk X j = Inr t)"
  then have "[2..m] \<noteq> []" by simp
  moreover from a have "\<forall>k \<in> set [2..m]. \<exists>s. candidate_score sk X k = Inr s" by simp
  ultimately have "\<exists>k. snd (select_from sk X [2..m]) = Inr k" by (rule select_from_total)
  then show "\<exists>k. snd (find_optimal_clusters sk X max_clusters) = Inr k"
    by (simp add: find_optimal_clusters_select m)
next
  assume "\<exists>j \<in> {2..m}. \<exists>e. candidate_score sk X j = Inl e"
  then obtain j e where "j \<in> set [2..m]" and "candidate_score sk X j = Inl e" by auto
  then have "\<not> (\<forall>k \<in> set [2..m]. \<exists>s. candidate_score sk X k = Inr s)"
    by (metis Inl_Inr_False)
  then have "\<exists>e. snd (select_from sk X [2..m]) = Inl e" by (rule select_from_raises)
  then show "\<exists>e. snd (find_optimal_clusters sk X max_clusters) = Inl e"
    by (simp add: find_optimal_clusters_select m)
next
  fix k
  assume "snd (find_optimal_clusters sk X max_clusters) = Inr k"
  then have "snd (select_from sk X [2..m]) = Inr k"
    by (simp add: find_optimal_clusters_select m)
  from select_from_Inr [OF this] obtain ss r where
    sc: "map (candidate_score sk X) [2..m] = map Inr ss"
    and fm: "first_max ss r" and k: "k = [2..m] ! r"
    by blast
  from sc have len: "length ss = length [2..m]" by (metis length_map)
  with fm have r: "r < length [2..m]" by (simp add: first_max_def)
  then have kr: "k = 2 + int r" unfolding k by (simp add: nth_upto)
  from r have "k \<in> set [2..m]" unfolding k by (rule nth_mem)
  then show "k \<in> {2..m}" by simp
  have at: "candidate_score sk X j = Inr (ss ! nat (j - 2)) \<and> nat (j - 2) < length ss"
    if "j \<in> {2..m}" for j
  proof -
    from that have i: "nat (j - 2) < length [2..m]" by simp
    with that have "[2..m] ! nat (j - 2) = j" by (simp add: nth_upto)
    with map_Inr_nth [OF sc i] i len show ?thesis by simp
  qed
  from \<open>k \<in> {2..m}\<close> kr at [of k] have ks: "candidate_score sk X k = Inr (ss ! r)" by simp
  have le: "\<exists>t. candidate_score sk X j = Inr t \<and> t \<le> ss ! r" if "j \<in> {2..m}" for j
    using at [OF that] fm by (auto simp: first_max_def)
  have less: "\<exists>t. candidate_score sk X j = Inr t \<and> t < ss ! r" if "j \<in> {2..m}" "j < k" for j
  proof -
    from that kr have "nat (j - 2) < r" by auto
    with at [OF that(1)] fm show ?thesis by (auto simp: first_max_def)
  qed
  from ks le less
  show "\<exists>s. candidate_score sk X k = Inr s
          \<and> (\<forall>j \<in> {2..m}. \<exists>t. candidate_score sk X j = Inr t \<and> t \<le> s)
          \<and> (\<forall>j \<in> {2..m}. j < k \<longrightarrow> (\<exists>t. candidate_score sk X j = Inr t \<and> t < s))"
    by blast
qed

text \<open>With 24 rows the candidates are 2 and 3, scored 1/4 and 1/2: the result is 3.\<close>

theorem find_optimal_clusters_maximal_witness:
  "snd (find_optimal_clusters sk_round_robin (replicate 24 [0]) 10) = Inr 3
   \<and> candidate_score sk_round_robin (replicate 24 [0]) 2 = Inr (1 / 4)
   \<and> candidate_score sk_round_robin (replicate 24 [0]) 3 = Inr (1 / 2)"
proof -
  let ?X = "replicate 24 [0::real]"
  have m: "3 = min 10 (int (length ?X) div 8)" by simp
  have c2: "candidate_score sk_round_robin ?X 2 = Inr (1 / 4)" by code_simp
  have c3: "candidate_score sk_round_robin ?X 3 = Inr (1 / 2)" by code_simp
  have cases: "j = 2 \<or> j = 3" if "j \<in> {2..3}" for j :: int using that by auto
  have "\<exists>t. candidate_score sk_round_robin ?X j = Inr t" if "j \<in> {2..3}" for j
    using cases [OF that] c2 c3 by blast
  then have ok: "(2::int) \<le> 3 \<and> (\<forall>j \<in> {2..3}. \<exists>t. candidate_score sk_round_robin ?X j = Inr t)"
    by simp
  from find_optimal_clusters_maximal [OF m, of sk_round_robin] ok
  obtain k where k: "snd (find_optimal_clusters sk_round_robin ?X 10) = Inr k" by blast
  from find_optimal_clusters_maximal [OF m, of sk_round_robin] k
  obtain s where "k \<in> {2..3}" and s: "candidate_score sk_round_robin ?X k = Inr s"
    and le: "\<forall>j \<in> {2..3}. \<exists>t. candidate_score sk_round_robin ?X j = Inr t \<and> t \<le> s"
    by blast
  have "(3::int) \<in> {2..3}" by simp
  with le obtain t where "candidate_score sk_round_robin ?X 3 = Inr t" and "t \<le> s" by blast
  with c3 have "1 / 2 \<le> s" by simp
  with s c2 have "k \<noteq> 2" by auto
  with \<open>k \<in> {2..3}\<close> cases have "k = 3" by blast
  with k c2 c3 show ?thesis by simp
qed

text \<open>
  Claim C5 as stated fails on a non-empty range when a candidate cannot be scored. On
  24 equal rows the candidates are 2 and 3; \<open>KMeans\<close> puts all rows in one cluster and
  \<open>silhouette_score\<close> raises on a labelling with one cluster, so no count is returned.
\<close>

theorem identical_rows_counterexample:
  "[2..min 10 (int (length (replicate 24 [0::real])) div 8)] = [2, 3]
   \<and> snd (find_optimal_clusters sk_checked (replicate 24 [0]) 10)
       = Inl (ValueError ''Number of labels is 1. Valid values are 2 to n_samples - 1 (inclusive)'')"
proof -
  have "[2..min 10 (int (length (replicate 24 [0::real])) div 8)] = [2, 3]" by code_simp
  moreover have "snd (find_optimal_clusters sk_checked (replicate 24 [0]) 10)
       = Inl (ValueError ''Number of labels is 1. Valid values are 2 to n_samples - 1 (inclusive)'')"
    by code_simp
  ultimately show ?thesis by simp
qed



section \<open>The workflow: auxiliary facts\<close>

lemma filter_by_own_mask: "map fst (filter snd (zip xs (map f xs))) = filter f xs"
  by (induction xs) auto

lemma zip_two_maps: "zip (map f xs) (map g xs) = map (\<lambda>x. (f x, g x)) xs"
  by (induction xs) simp_all

lemma index_of_less: "index_of x xs = Some i \<Longrightarrow> i < length xs \<and> xs ! i = x"
  by (induction xs arbitrary: i) (auto split: if_splits)

lemma index_of_None: "index_of x xs = None \<longleftrightarrow> x \<notin> set xs"
  by (induction xs) auto

lemma select_two_columns:
  "select_columns raw [a, b] = Inr df \<longleftrightarrow>
   (\<exists>i j. index_of a (columns raw) = Some i \<and> index_of b (columns raw) = Some j \<and>
      df = \<lparr> columns = [a, b], rows = map (\<lambda>r. [r ! i, r ! j]) (rows raw) \<rparr>)"
  by (auto simp: select_columns_def split: option.splits)

lemma get_column_Inr:
  "get_column df name = Inr col \<longleftrightarrow>
   (\<exists>i. index_of name (columns df) = Some i \<and> col = map (\<lambda>r. r ! i) (rows df))"
  by (auto simp: get_column_def split: option.splits)

lemma load_and_clean_Inr:
  "load_and_clean self pd = Inr (df, clean_data) \<longleftrightarrow>
   (\<exists>raw ids qs.
      read_csv pd (input_file self) = Inr raw \<and>
      get_column raw ''Inquiry_id'' = Inr ids \<and>
      get_column raw ''Question'' = Inr qs \<and>
      df = with_clean_text self ids qs \<and>
      clean_data = df\<lparr> rows := filter (\<lambda>r. r ! 2 \<noteq> Str []) (rows df) \<rparr>)"
proof
  assume a: "load_and_clean self pd = Inr (df, clean_data)"
  then obtain raw where raw: "read_csv pd (input_file self) = Inr raw"
    by (auto simp: load_and_clean_def split: sum.splits)
  with a obtain sel where sel: "select_columns raw [''Inquiry_id'', ''Question''] = Inr sel"
    by (auto simp: load_and_clean_def split: sum.splits)
  then obtain i j where i: "index_of ''Inquiry_id'' (columns raw) = Some i"
    and j: "index_of ''Question'' (columns raw) = Some j"
    and seldef: "sel = \<lparr> columns = [''Inquiry_id'', ''Question''],
                         rows = map (\<lambda>r. [r ! i, r ! j]) (rows raw) \<rparr>"
    unfolding select_two_columns by blast
  let ?ids = "map (\<lambda>r. r ! i) (rows raw)" and ?qs = "map (\<lambda>r. r ! j) (rows raw)"
  have ids: "get_column raw ''Inquiry_id'' = Inr ?ids" and qs: "get_column raw ''Question'' = Inr ?qs"
    using i j by (simp_all add: get_column_def)
  have q: "get_column sel ''Question'' = Inr ?qs"
    by (simp add: seldef get_column_def comp_def)
  have zip: "zip ?ids ?qs = map (\<lambda>r. (r ! i, r ! j)) (rows raw)"
    by (rule zip_two_maps)
  have setc: "set_column sel ''Description_clean''
        (map (\<lambda>text. Str (preprocess_text self (py_str text))) ?qs) = Inr (with_clean_text self ?ids ?qs)"
    by (simp add: seldef set_column_def with_clean_text_def zip zip_map_map comp_def zip_same_conv_map)
  have cleaned: "get_column (with_clean_text self ?ids ?qs) ''Description_clean''
      = Inr (map (\<lambda>r. r ! 2) (rows (with_clean_text self ?ids ?qs)))"
    by (simp add: get_column_def with_clean_text_def numeral_2_eq_2)
  let ?df = "with_clean_text self ?ids ?qs"
  from raw sel q setc cleaned
  have "load_and_clean self pd =
      Inr (?df, filter_rows ?df (map (\<lambda>c. c \<noteq> Str []) (map (\<lambda>r. r ! 2) (rows ?df))))"
    by (simp add: load_and_clean_def)
  with a
  have pair: "(?df, filter_rows ?df (map (\<lambda>c. c \<noteq> Str []) (map (\<lambda>r. r ! 2) (rows ?df)))) = (df, clean_data)"
    by (metis sum.inject(2))
  then have dfeq: "df = ?df" by (metis prod.inject)
  from pair have "clean_data = filter_rows ?df (map (\<lambda>c. c \<noteq> Str []) (map (\<lambda>r. r ! 2) (rows ?df)))"
    by (metis prod.inject)
  also have "\<dots> = ?df\<lparr> rows := filter (\<lambda>r. r ! 2 \<noteq> Str []) (rows ?df) \<rparr>"
    by (simp add: filter_rows_def filter_by_own_mask [where f = "\<lambda>r. r ! 2 \<noteq> Str []", symmetric] comp_def)
  finally have "clean_data = df\<lparr> rows := filter (\<lambda>r. r ! 2 \<noteq> Str []) (rows df) \<rparr>"
    by (simp only: dfeq)
  with raw ids qs dfeq
  show "\<exists>raw ids qs.
      read_csv pd (input_file self) = Inr raw \<and>
      get_column raw ''Inquiry_id'' = Inr ids \<and>
      get_column raw ''Question'' = Inr qs \<and>
      df = with_clean_text self ids qs \<and>
      clean_data = df\<lparr> rows := filter (\<lambda>r. r ! 2 \<noteq> Str []) (rows df) \<rparr>"
    by blast
next
  assume "\<exists>raw ids qs.
      read_csv pd (input_file self) = Inr raw \<and>
      get_column raw ''Inquiry_id'' = Inr ids \<and>
      get_column raw ''Question'' = Inr qs \<and>
      df = with_clean_text self ids qs \<and>
      clean_data = df\<lparr> rows := filter (\<lambda>r. r ! 2 \<noteq> Str []) (rows df) \<rparr>"
  then obtain raw ids qs where raw: "read_csv pd (input_file self) = Inr raw"
    and ids: "get_column raw ''Inquiry_id'' = Inr ids"
    and qs: "get_column raw ''Question'' = Inr qs"
    and df: "df = with_clean_text self ids qs"
    and cd: "clean_data = df\<lparr> rows := filter (\<lambda>r. r ! 2 \<noteq> Str []) (rows df) \<rparr>"
    by blast
  from ids qs obtain i j where i: "index_of ''Inquiry_id'' (columns raw) = Some i"
    and j: "index_of ''Question'' (columns raw) = Some j"
    and idsdef: "ids = map (\<lambda>r. r ! i) (rows raw)" and qsdef: "qs = map (\<lambda>r. r ! j) (rows raw)"
    unfolding get_column_Inr by blast
  let ?sel = "\<lparr> columns = [''Inquiry_id'', ''Question''],
                 rows = map (\<lambda>r. [r ! i, r ! j]) (rows raw) \<rparr>"
  have sel: "select_columns raw [''Inquiry_id'', ''Question''] = Inr ?sel"
    unfolding select_two_columns using i j by blast
  have q: "get_column ?sel ''Question'' = Inr qs"
    by (simp add: get_column_def comp_def qsdef)
  have zip: "zip ids qs = map (\<lambda>r. (r ! i, r ! j)) (rows raw)"
    unfolding idsdef qsdef by (rule zip_two_maps)
  have setc: "set_column ?sel ''Description_clean''
        (map (\<lambda>text. Str (preprocess_text self (py_str text))) qs) = Inr df"
    by (simp add: set_column_def with_clean_text_def df idsdef qsdef zip_map_map comp_def zip_same_conv_map)
  have cleaned: "get_column df ''Description_clean'' = Inr (map (\<lambda>r. r ! 2) (rows df))"
    by (simp add: get_column_def with_clean_text_def df numeral_2_eq_2)
  have "filter_rows df (map (\<lambda>c. c \<noteq> Str []) (map (\<lambda>r. r ! 2) (rows df))) = clean_data"
    by (simp add: cd filter_rows_def filter_by_own_mask [where f = "\<lambda>r. r ! 2 \<noteq> Str []", symmetric] comp_def)
  with raw sel q setc cleaned show "load_and_clean self pd = Inr (df, clean_data)"
    by (simp add: load_and_clean_def)
qed

lemma cluster_tickets_Inr:
  assumes "cluster_tickets self pd sk = (trace, Inr (path, out))"
  shows "\<exists>df clean_data description_clean X sel k labels clean_data' df'.
     load_and_clean self pd = Inr (df, clean_data) \<and>
     get_column clean_data ''Description_clean'' = Inr description_clean \<and>
     tfidf_fit_transform sk (map py_str description_clean) = Inr X \<and>
     find_optimal_clusters sk X 10 = (sel, Inr k) \<and>
     kmeans_fit sk \<lparr> n_clusters = k, init_method = ''k-means++'', max_iter = 300,
                      n_init = 10, random_state = 42 \<rparr> X = Inr labels \<and>
     set_column clean_data ''Label'' (map Num labels) = Inr clean_data' \<and>
     set_column df ''Label'' (map Num labels) = Inr df' \<and>
     sort_values pd df' ''Label'' = Inr out \<and>
     path = output_file self \<and>
     trace = TfidfCall (map py_str description_clean) # sel @
       [KMeansCall \<lparr> n_clusters = k, init_method = ''k-means++'', max_iter = 300,
                      n_init = 10, random_state = 42 \<rparr> X (Inr labels)]"
  using assms unfolding cluster_tickets_def Let_def
  by (auto split: sum.splits prod.splits)

lemma evaluate_candidate_fit:
  "KMeansCall \<lparr> n_clusters = k, init_method = ''k-means++'', max_iter = 300,
                 n_init = 10, random_state = 42 \<rparr> X
     (kmeans_fit sk \<lparr> n_clusters = k, init_method = ''k-means++'', max_iter = 300,
                       n_init = 10, random_state = 42 \<rparr> X)
   \<in> set (fst (evaluate_candidate sk X k))"
  by (simp add: evaluate_candidate_def Let_def split: sum.splits)

lemma score_candidates_grows:
  "score_candidates sk X ks acc tr = (tr', res) \<Longrightarrow> set tr \<subseteq> set tr'"
proof (induction ks arbitrary: acc tr)
  case Nil
  then show ?case by simp
next
  case (Cons k ks)
  obtain calls sc where ev: "evaluate_candidate sk X k = (calls, sc)"
    by (cases "evaluate_candidate sk X k")
  show ?case
  proof (cases sc)
    case (Inl e)
    with Cons.prems ev show ?thesis by auto
  next
    case (Inr s)
    with Cons.prems ev have "score_candidates sk X ks (acc @ [s]) (tr @ calls) = (tr', res)" by simp
    from Cons.IH [OF this] show ?thesis by simp
  qed
qed

lemma score_candidates_fits:
  "score_candidates sk X ks acc tr = (tr', Inr scores) \<Longrightarrow> k \<in> set ks \<Longrightarrow>
   KMeansCall \<lparr> n_clusters = k, init_method = ''k-means++'', max_iter = 300,
                 n_init = 10, random_state = 42 \<rparr> X
     (kmeans_fit sk \<lparr> n_clusters = k, init_method = ''k-means++'', max_iter = 300,
                       n_init = 10, random_state = 42 \<rparr> X) \<in> set tr'"
proof (induction ks arbitrary: acc tr)
  case Nil
  then show ?case by simp
next
  case (Cons c ks)
  from Cons.prems(1) obtain calls s where ev: "evaluate_candidate sk X c = (calls, Inr s)"
    and rest: "score_candidates sk X ks (acc @ [s]) (tr @ calls) = (tr', Inr scores)"
    by (auto split: prod.splits sum.splits)
  show ?case
  proof (cases "k = c")
    case True
    from evaluate_candidate_fit [where k = c and sk = sk and X = X] ev
    have "KMeansCall \<lparr> n_clusters = c, init_method = ''k-means++'', max_iter = 300,
                 n_init = 10, random_state = 42 \<rparr> X
     (kmeans_fit sk \<lparr> n_clusters = c, init_method = ''k-means++'', max_iter = 300,
                       n_init = 10, random_state = 42 \<rparr> X) \<in> set (tr @ calls)"
      by simp
    with score_candidates_grows [OF rest] True show ?thesis by blast
  next
    case False
    with Cons.prems(2) have "k \<in> set ks" by simp
    from Cons.IH [OF rest this] show ?thesis .
  qed
qed

lemma select_from_fits:
  assumes "select_from sk X K = (sel, Inr k)"
  shows "k \<in> set K \<and>
     KMeansCall \<lparr> n_clusters = k, init_method = ''k-means++'', max_iter = 300,
                   n_init = 10, random_state = 42 \<rparr> X
       (kmeans_fit sk \<lparr> n_clusters = k, init_method = ''k-means++'', max_iter = 300,
                         n_init = 10, random_state = 42 \<rparr> X) \<in> set sel"
proof -
  from assms obtain scores where sc: "score_candidates sk X K [] [] = (sel, Inr scores)"
    by (auto simp: select_from_def split: prod.splits sum.splits if_splits)
  from assms sc obtain r where "r < length K" and "k = K ! r"
    by (auto simp: select_from_def split: sum.splits if_splits)
  then have k: "k \<in> set K" by simp
  from score_candidates_fits [OF sc k] k show ?thesis by simp
qed

lemma cluster_tickets_InrE:
  assumes "cluster_tickets self pd sk = (trace, Inr (path, out))"
  obtains df clean_data description_clean X sel k labels clean_data' df' where
    "load_and_clean self pd = Inr (df, clean_data)"
    "get_column clean_data ''Description_clean'' = Inr description_clean"
    "tfidf_fit_transform sk (map py_str description_clean) = Inr X"
    "find_optimal_clusters sk X 10 = (sel, Inr k)"
    "kmeans_fit sk \<lparr> n_clusters = k, init_method = ''k-means++'', max_iter = 300,
                      n_init = 10, random_state = 42 \<rparr> X = Inr labels"
    "set_column clean_data ''Label'' (map Num labels) = Inr clean_data'"
    "set_column df ''Label'' (map Num labels) = Inr df'"
    "sort_values pd df' ''Label'' = Inr out"
    "path = output_file self"
    "trace = TfidfCall (map py_str description_clean) # sel @
       [KMeansCall \<lparr> n_clusters = k, init_method = ''k-means++'', max_iter = 300,
                      n_init = 10, random_state = 42 \<rparr> X (Inr labels)]"
proof -
  from cluster_tickets_Inr [OF assms]
  obtain df clean_data description_clean X sel k labels clean_data' df' where
    "load_and_clean self pd = Inr (df, clean_data) \<and>
     get_column clean_data ''Description_clean'' = Inr description_clean \<and>
     tfidf_fit_transform sk (map py_str description_clean) = Inr X \<and>
     find_optimal_clusters sk X 10 = (sel, Inr k) \<and>
     kmeans_fit sk \<lparr> n_clusters = k, init_method = ''k-means++'', max_iter = 300,
                      n_init = 10, random_state = 42 \<rparr> X = Inr labels \<and>
     set_column clean_data ''Label'' (map Num labels) = Inr clean_data' \<and>
     set_column df ''Label'' (map Num labels) = Inr df' \<and>
     sort_values pd df' ''Label'' = Inr out \<and>
     path = output_file self \<and>
     trace = TfidfCall (map py_str description_clean) # sel @
       [KMeansCall \<lparr> n_clusters = k, init_method = ''k-means++'', max_iter = 300,
                      n_init = 10, random_state = 42 \<rparr> X (Inr labels)]"
    by (elim exE) (rule that)
  then show ?thesis
    by (elim conjE) (rule that)
qed

lemma set_column_Inr_length:
  "set_column df name vals = Inr df' \<Longrightarrow> length vals = length (rows df)"
  by (auto simp: set_column_def split: if_splits)

lemma set_column_new:
  "index_of name (columns df) = None \<Longrightarrow> set_column df name vals = Inr df' \<Longrightarrow>
   df' = \<lparr> columns = columns df @ [name], rows = map (\<lambda>(r, v). r @ [v]) (zip (rows df) vals) \<rparr>"
  by (auto simp: set_column_def split: if_splits)

lemma labelled_rows:
  assumes "set_column (with_clean_text self ids qs) ''Label'' (map Num labels) = Inr df'"
  shows "columns df' = [''Inquiry_id'', ''Question'', ''Description_clean'', ''Label'']"
    and "rows df' = map (\<lambda>((i, q), l). [i, q, Str (preprocess_text self (py_str q)), Num l])
                        (zip (zip ids qs) labels)"
    and "length labels = length (zip ids qs)"
proof -
  have none: "index_of ''Label'' (columns (with_clean_text self ids qs)) = None"
    by (simp add: with_clean_text_def)
  from set_column_new [OF none assms]
  have df': "df' = \<lparr> columns = columns (with_clean_text self ids qs) @ [''Label''],
      rows = map (\<lambda>(r, v). r @ [v]) (zip (rows (with_clean_text self ids qs)) (map Num labels)) \<rparr>" .
  then show "columns df' = [''Inquiry_id'', ''Question'', ''Description_clean'', ''Label'']"
    by (simp add: with_clean_text_def)
  from df' show "rows df' = map (\<lambda>((i, q), l). [i, q, Str (preprocess_text self (py_str q)), Num l])
                        (zip (zip ids qs) labels)"
    by (simp add: with_clean_text_def zip_map1 zip_map2 case_prod_unfold)
  from set_column_Inr_length [OF assms] show "length labels = length (zip ids qs)"
    by (simp add: with_clean_text_def)
qed

lemma sort_values_labels:
  assumes cols: "columns df = [''Inquiry_id'', ''Question'', ''Description_clean'', ''Label'']"
    and nums: "\<forall>r \<in> set (rows df). is_number (r ! 3)"
    and sorted_df: "sort_values pd df ''Label'' = Inr out"
  shows "columns out = columns df"
    and "sorted (map (\<lambda>r. the_number (r ! 3)) (rows out))"
    and "mset (rows out) = mset (rows df)"
proof -
  let ?key = "\<lambda>r. the_number (r ! 3)"
  let ?keys = "map ?key (rows df)"
  let ?ranked = "sort_key (\<lambda>(p, r). quicksort_ties pd ?keys p) (zip [0..<length (rows df)] (rows df))"
  let ?arranged = "sort_key (\<lambda>(p, r). ?key r) ?ranked"
  from cols have idx: "index_of ''Label'' (columns df) = Some 3"
    by (simp add: numeral_3_eq_3)
  from nums have no_str: "\<not> list_ex (\<lambda>r. \<not> is_number (r ! 3) \<and> r ! 3 \<noteq> NaN) (rows df)"
    by (simp add: list_ex_iff)
  from nums have all: "filter (\<lambda>r. is_number (r ! 3)) (rows df) = rows df"
    by (simp add: filter_id_conv)
  have none: "filter (\<lambda>r. r ! 3 = NaN) (rows df) = []"
  proof -
    have "r ! 3 \<noteq> NaN" if "r \<in> set (rows df)" for r
      using nums that by (cases "r ! 3") auto
    then show ?thesis by (simp add: filter_empty_conv)
  qed
  from sorted_df idx no_str all none have out: "out = df\<lparr> rows := map snd ?arranged \<rparr>"
    by (simp add: sort_values_def Let_def)
  from out show "columns out = columns df" by simp
  have "map ?key (map snd xs) = map (\<lambda>(p, r). ?key r) xs" for xs :: "(nat \<times> cell list) list"
    by (induction xs) auto
  moreover have "sorted (map (\<lambda>(p, r). ?key r) ?arranged)" by (rule sorted_sort_key)
  ultimately have "sorted (map ?key (map snd ?arranged))" by (simp only:)
  with out show "sorted (map ?key (rows out))" by simp
  have "mset (map snd ?arranged) = image_mset snd (mset ?arranged)" by (rule mset_map)
  also have "mset ?arranged = mset (zip [0..<length (rows df)] (rows df))"
    by (simp only: mset_sort)
  also have "image_mset snd (mset (zip [0..<length (rows df)] (rows df)))
      = mset (map snd (zip [0..<length (rows df)] (rows df)))"
    by (rule mset_map [symmetric])
  also have "map snd (zip [0..<length (rows df)] (rows df)) = rows df"
    by (rule map_snd_zip) simp
  finally show "mset (rows out) = mset (rows df)" using out by simp
qed

lemma filter_keeps_all:
  assumes "length (filter P xs) = length xs"
  shows "\<forall>x \<in> set xs. P x"
proof (rule ballI, rule ccontr)
  fix x
  assume "x \<in> set xs" and "\<not> P x"
  then have "length (filter P xs) < length xs" by (rule length_filter_less)
  with assms show False by simp
qed

section \<open>The normaliser: runs of characters\<close>

lemma split_runs: "split s = runs (\<lambda>c. \<not> is_space c) s"
proof (induction s rule: length_induct)
  case (1 s)
  show ?case
  proof (cases s)
    case Nil
    then show ?thesis by (simp add: split.simps)
  next
    case (Cons c cs)
    show ?thesis
    proof (cases "is_space c")
      case True
      have "length cs < length s" using Cons by simp
      with 1 have "split cs = runs (\<lambda>c. \<not> is_space c) cs" by blast
      moreover from True have "split (c # cs) = split cs"
        by (simp add: split.simps [of "c # cs"] split.simps [of cs])
      ultimately show ?thesis using True Cons by simp
    next
      case False
      have "length (dropWhile (\<lambda>x. \<not> is_space x) cs) \<le> length cs"
        by (rule length_dropWhile_le)
      then have "length (dropWhile (\<lambda>x. \<not> is_space x) cs) < length s" using Cons by simp
      with 1 have "split (dropWhile (\<lambda>x. \<not> is_space x) cs)
          = runs (\<lambda>c. \<not> is_space c) (dropWhile (\<lambda>x. \<not> is_space x) cs)"
        by blast
      moreover from False have "split (c # cs) =
          (c # takeWhile (\<lambda>x. \<not> is_space x) cs) # split (dropWhile (\<lambda>x. \<not> is_space x) cs)"
        by (simp add: split.simps [of "c # cs"])
      ultimately show ?thesis using False Cons by simp
    qed
  qed
qed

lemma runs_none: "\<forall>c \<in> set s. \<not> P c \<Longrightarrow> runs P s = []"
  by (induction s) simp_all

lemma runs_skip: "\<not> P c \<Longrightarrow> runs P (c # s) = runs P s"
  by simp

text \<open>A character of the class in front of a string joins the first run or forms its own.\<close>

lemma runs_Cons:
  "P c \<Longrightarrow> runs P (c # s) =
     (if s \<noteq> [] \<and> P (hd s) then (c # hd (runs P s)) # tl (runs P s) else [c] # runs P s)"
  by (cases s) simp_all

lemma runs_nonempty: "s \<noteq> [] \<Longrightarrow> P (hd s) \<Longrightarrow> runs P s \<noteq> []"
  by (cases s) simp_all

lemma runs_append:
  "b = [] \<or> \<not> P (hd b) \<Longrightarrow> runs P (a @ b) = runs P a @ runs P b"
proof (induction a)
  case Nil
  then show ?case by simp
next
  case (Cons c a)
  from Cons have IH: "runs P (a @ b) = runs P a @ runs P b" by simp
  show ?case
  proof (cases "P c")
    case False
    with IH show ?thesis by simp
  next
    case True
    show ?thesis
    proof (cases "a \<noteq> [] \<and> P (hd a)")
      case yes: True
      then have ne: "runs P a \<noteq> []" by (simp add: runs_nonempty)
      from yes have cond: "a @ b \<noteq> [] \<and> P (hd (a @ b))" by simp
      have "runs P (c # (a @ b)) = (c # hd (runs P (a @ b))) # tl (runs P (a @ b))"
        unfolding runs_Cons [of P c, OF True] using cond by (rule if_P)
      also have "\<dots> = ((c # hd (runs P a)) # tl (runs P a)) @ runs P b"
        unfolding IH using ne by simp
      also have "(c # hd (runs P a)) # tl (runs P a) = runs P (c # a)"
        unfolding runs_Cons [of P c, OF True] using yes by (rule if_P [symmetric])
      finally show ?thesis by simp
    next
      case no: False
      with Cons.prems have cond: "\<not> (a @ b \<noteq> [] \<and> P (hd (a @ b)))"
        by (cases a) auto
      have "runs P (c # (a @ b)) = [c] # runs P (a @ b)"
        unfolding runs_Cons [of P c, OF True] using cond by (rule if_not_P)
      also have "\<dots> = ([c] # runs P a) @ runs P b"
        unfolding IH by simp
      also have "[c] # runs P a = runs P (c # a)"
        unfolding runs_Cons [of P c, OF True] using no by (rule if_not_P [symmetric])
      finally show ?thesis by simp
    qed
  qed
qed

lemma runs_all:
  assumes "a \<noteq> []" and "\<forall>c \<in> set a. P c"
  shows "runs P a = [a]"
proof -
  from assms(1) obtain c cs where a: "a = c # cs" by (cases a) auto
  with assms(2) have pc: "P c" and tw: "takeWhile P cs = cs" and dw: "dropWhile P cs = []"
    by (simp_all add: takeWhile_eq_all_conv dropWhile_eq_Nil_conv)
  show ?thesis unfolding a by (simp only: runs.simps pc tw dw if_True)
qed

lemma runs_dropWhile:
  "\<forall>c. Q c \<longrightarrow> \<not> P c \<Longrightarrow> runs P (dropWhile Q s) = runs P s"
  by (induction s) simp_all

lemma runs_props:
  "r \<in> set (runs P s) \<Longrightarrow> r \<noteq> [] \<and> (\<forall>c \<in> set r. P c) \<and> set r \<subseteq> set s"
proof (induction P s rule: runs.induct)
  case (1 P)
  then show ?case by simp
next
  case (2 P c cs)
  show ?case
  proof (cases "P c")
    case False
    with 2 show ?thesis by auto
  next
    case True
    with 2(3) have "r = c # takeWhile P cs \<or> r \<in> set (runs P (dropWhile P cs))" by simp
    then show ?thesis
    proof
      assume r: "r = c # takeWhile P cs"
      have "\<forall>x \<in> set (takeWhile P cs). P x \<and> x \<in> set cs"
        by (auto dest: set_takeWhileD)
      with r True show ?thesis by auto
    next
      assume "r \<in> set (runs P (dropWhile P cs))"
      with 2(1) True have "r \<noteq> [] \<and> (\<forall>c \<in> set r. P c) \<and> set r \<subseteq> set (dropWhile P cs)"
        by blast
      moreover have "set (dropWhile P cs) \<subseteq> set cs" by (auto dest: set_dropWhileD)
      ultimately show ?thesis by auto
    qed
  qed
qed

lemma dropWhile_start: "dropWhile P s = [] \<or> \<not> P (hd (dropWhile P s))"
  by (metis hd_dropWhile)

text \<open>A run of a wider class that lies within a narrower class is a run of the narrower class.\<close>

lemma runs_narrow:
  "\<forall>c. P2 c \<longrightarrow> P c \<Longrightarrow> r \<in> set (runs P s) \<Longrightarrow> \<forall>c \<in> set r. P2 c \<Longrightarrow>
   r \<in> set (runs P2 s)"
proof (induction P s rule: runs.induct)
  case (1 P)
  then show ?case by simp
next
  case (2 P c cs)
  note sub = 2(3) and mem = 2(4) and all = 2(5)
  show ?case
  proof (cases "P c")
    case False
    with sub have "\<not> P2 c" by blast
    with False 2 show ?thesis by simp
  next
    case True
    let ?run = "c # takeWhile P cs" and ?rest = "dropWhile P cs"
    have start: "?rest = [] \<or> \<not> P2 (hd ?rest)"
      using dropWhile_start [of P cs] sub by blast
    have whole: "c # cs = ?run @ ?rest" by simp
    from runs_append [of ?rest P2 ?run] start
    have app: "runs P2 (c # cs) = runs P2 ?run @ runs P2 ?rest"
      by (simp only: whole [symmetric])
    from mem True have "r = ?run \<or> r \<in> set (runs P ?rest)" by simp
    then show ?thesis
    proof
      assume r: "r = ?run"
      with all have "\<forall>x \<in> set ?run. P2 x" by simp
      then have "runs P2 ?run = [?run]" by (intro runs_all) simp_all
      with app r show ?thesis by simp
    next
      assume "r \<in> set (runs P ?rest)"
      with 2(1) [OF True sub _ all] have "r \<in> set (runs P2 ?rest)" by blast
      with app show ?thesis by simp
    qed
  qed
qed

section \<open>The normaliser: words survive or vanish whole\<close>

lemma space_not_word: "is_space c \<Longrightarrow> \<not> is_word c"
  by (auto simp: is_space_def is_word_def whitespace_def ascii_lowercase_def ascii_uppercase_def
      digits_def latin1_word_chars_def)

lemma blank_is_space: "is_space CHR '' ''"
  by (simp add: is_space_def whitespace_def)

lemma lowercase_is_word: "c \<in> set ascii_lowercase \<Longrightarrow> is_word c"
  by (simp add: is_word_def)

lemma remove_short_words_start:
  "s = [] \<or> \<not> is_word (hd s) \<Longrightarrow>
   remove_short_words s = [] \<or> \<not> is_word (hd (remove_short_words s))"
  by (cases s) auto

lemma word_runs_remove_short_words:
  "word_runs (remove_short_words s) = filter (\<lambda>r. 2 < length r) (word_runs s)"
  unfolding word_runs_def
proof (induction s rule: remove_short_words.induct)
  case 1
  then show ?case by simp
next
  case (2 c cs)
  show ?case
  proof (cases "is_word c")
    case False
    with 2 show ?thesis by simp
  next
    case True
    let ?run = "c # takeWhile is_word cs" and ?rest = "dropWhile is_word cs"
    from 2(1) [OF True refl] have IH: "runs is_word (remove_short_words ?rest) =
        filter (\<lambda>r. 2 < length r) (runs is_word ?rest)" .
    have start: "remove_short_words ?rest = [] \<or> \<not> is_word (hd (remove_short_words ?rest))"
      by (rule remove_short_words_start) (rule dropWhile_start)
    have all: "\<forall>x \<in> set ?run. is_word x" using True by (auto dest: set_takeWhileD)
    have one: "runs is_word ?run = [?run]" by (rule runs_all) (simp, rule all)
    have rhs: "runs is_word (c # cs) = ?run # runs is_word ?rest" using True by simp
    show ?thesis
    proof (cases "length ?run \<le> 2")
      case short: True
      with True have "remove_short_words (c # cs) = remove_short_words ?rest"
        by (simp add: Let_def)
      with IH rhs short show ?thesis by simp
    next
      case long: False
      with True have "remove_short_words (c # cs) = ?run @ remove_short_words ?rest"
        by (simp add: Let_def)
      then have "runs is_word (remove_short_words (c # cs)) =
          runs is_word ?run @ runs is_word (remove_short_words ?rest)"
        using runs_append [of "remove_short_words ?rest" is_word ?run] start by simp
      with one IH rhs long show ?thesis by simp
    qed
  qed
qed

lemma collapse_whitespace_start:
  "(collapse_whitespace s \<noteq> [] \<and> is_word (hd (collapse_whitespace s))) \<longleftrightarrow>
   (s \<noteq> [] \<and> is_word (hd s))"
  using space_not_word blank_is_space by (cases s) auto

lemma word_runs_collapse_whitespace:
  "word_runs (collapse_whitespace s) = word_runs s"
  unfolding word_runs_def
proof (induction s rule: collapse_whitespace.induct)
  case 1
  then show ?case by simp
next
  case (2 c cs)
  show ?case
  proof (cases "is_space c")
    case True
    then have nw: "\<not> is_word c" by (rule space_not_word)
    have nb: "\<not> is_word CHR '' ''" using blank_is_space by (rule space_not_word)
    from True have "runs is_word (collapse_whitespace (c # cs)) =
        runs is_word (collapse_whitespace (dropWhile is_space cs))"
      using nb by simp
    also from 2(1) [OF True] have "\<dots> = runs is_word (dropWhile is_space cs)" .
    also have "\<dots> = runs is_word cs"
      by (rule runs_dropWhile) (simp add: space_not_word)
    finally show ?thesis using nw by simp
  next
    case False
    from 2(2) [OF False] have IH: "runs is_word (collapse_whitespace cs) = runs is_word cs" .
    show ?thesis
    proof (cases "is_word c")
      case nw: False
      with False IH show ?thesis by simp
    next
      case w: True
      from False have "runs is_word (collapse_whitespace (c # cs)) =
          runs is_word (c # collapse_whitespace cs)" by simp
      also have "\<dots> = runs is_word (c # cs)"
        unfolding runs_Cons [of is_word c, OF w] IH collapse_whitespace_start ..
      finally show ?thesis .
    qed
  qed
qed

lemma word_runs_strip: "word_runs (strip s) = word_runs s"
proof -
  let ?t = "dropWhile is_space s"
  let ?u = "rev (dropWhile is_space (rev ?t))" and ?v = "rev (takeWhile is_space (rev ?t))"
  have "?u @ ?v = rev (takeWhile is_space (rev ?t) @ dropWhile is_space (rev ?t))"
    by (simp only: rev_append)
  also have "\<dots> = ?t"
    by (simp only: takeWhile_dropWhile_id rev_rev_ident)
  finally have t: "?u @ ?v = ?t" .
  have v: "\<forall>c \<in> set ?v. \<not> is_word c"
    by (auto dest: set_takeWhileD space_not_word)
  then have start: "?v = [] \<or> \<not> is_word (hd ?v)"
    by (cases ?v) auto
  have "runs is_word ?t = runs is_word (?u @ ?v)" by (simp only: t)
  also have "\<dots> = runs is_word ?u @ runs is_word ?v"
    using runs_append [of ?v is_word ?u] start by blast
  also have "\<dots> = runs is_word ?u" using runs_none [OF v] by simp
  finally have "runs is_word ?u = runs is_word ?t" by simp
  also have "\<dots> = runs is_word s"
    by (rule runs_dropWhile) (simp add: space_not_word)
  finally show ?thesis by (simp add: word_runs_def strip_def)
qed

lemma word_token_is_run:
  assumes "token \<in> set (split s)" and "\<forall>c \<in> set token. is_word c"
  shows "token \<in> set (word_runs s)"
proof -
  have "\<forall>c. is_word c \<longrightarrow> \<not> is_space c" using space_not_word by blast
  from runs_narrow [OF this _ assms(2)] assms(1) show ?thesis
    by (simp add: split_runs word_runs_def)
qed

section \<open>The normaliser: characters of the result\<close>

lemma lower_char_cases:
  "lower_char c \<in> set ascii_lowercase \<or> (lower_char c = c \<and> c \<notin> set ascii_uppercase)"
proof (cases "map_of (zip ascii_uppercase ascii_lowercase) c")
  case None
  have "length ascii_uppercase = length ascii_lowercase"
    by (simp add: ascii_uppercase_def ascii_lowercase_def)
  then have "map fst (zip ascii_uppercase ascii_lowercase) = ascii_uppercase"
    by (rule map_fst_zip)
  with None have "c \<notin> set ascii_uppercase"
    by (metis map_of_eq_None_iff set_map)
  with None show ?thesis by (simp add: lower_char_def)
next
  case (Some d)
  then have "(c, d) \<in> set (zip ascii_uppercase ascii_lowercase)" by (rule map_of_SomeD)
  then have "d \<in> set ascii_lowercase" by (rule set_zip_rightD)
  with Some show ?thesis by (simp add: lower_char_def)
qed

lemma sub_non_alpha_lower_chars:
  "set (sub_non_alpha (lower text)) \<subseteq> set (ascii_lowercase @ ''+ '')"
proof
  fix x
  assume "x \<in> set (sub_non_alpha (lower text))"
  then obtain c where c: "c \<in> set text"
    and x: "x = (if is_alpha_plus (lower_char c) then lower_char c else CHR '' '')"
    by (auto simp: sub_non_alpha_def lower_def)
  show "x \<in> set (ascii_lowercase @ ''+ '')"
  proof (cases "is_alpha_plus (lower_char c)")
    case False
    with x show ?thesis by simp
  next
    case True
    with lower_char_cases [of c] have "lower_char c \<in> set (ascii_lowercase @ ''+'')"
      by (auto simp: is_alpha_plus_def)
    then have "lower_char c \<in> set (ascii_lowercase @ ''+ '')" by auto
    with x True show ?thesis by (simp only: if_True)
  qed
qed

lemma remove_greetings_chars: "set (remove_greetings s) \<subseteq> set s"
proof (induction s rule: remove_greetings.induct)
  case 1
  then show ?case by simp
next
  case (2 c cs)
  have d: "set (drop n cs) \<subseteq> set (c # cs)" for n
    using set_drop_subset [of n cs] by auto
  show ?case
  proof (cases "take 6 (c # cs) = ''kindly''")
    case k: True
    then have "remove_greetings (c # cs) = remove_greetings (drop 5 cs)"
      by (simp only: remove_greetings.simps if_True simp_thms)
    with 2(1) [OF k] d [of 5] show ?thesis by auto
  next
    case nk: False
    show ?thesis
    proof (cases "take 2 (c # cs) = ''hi''")
      case h: True
      with nk have "remove_greetings (c # cs) = remove_greetings (drop 1 cs)"
        by (simp only: remove_greetings.simps if_True if_False simp_thms)
      with 2(2) [OF nk h] d [of 1] show ?thesis by auto
    next
      case nh: False
      show ?thesis
      proof (cases "take 5 (c # cs) = ''hello''")
        case e: True
        with nk nh have "remove_greetings (c # cs) = remove_greetings (drop 4 cs)"
          by (simp only: remove_greetings.simps if_True if_False simp_thms)
        with 2(3) [OF nk nh e] d [of 4] show ?thesis by auto
      next
        case ne: False
        with nk nh have "remove_greetings (c # cs) = c # remove_greetings cs"
          by (simp only: remove_greetings.simps if_False simp_thms)
        with 2(4) [OF nk nh ne] show ?thesis by auto
      qed
    qed
  qed
qed

lemma tokenize_chars:
  assumes "token \<in> set (tokenize text)"
  shows "set token \<subseteq> set (ascii_lowercase @ ''+'')"
proof
  fix x assume x: "x \<in> set token"
  from assms have "token \<in> set (runs (\<lambda>c. \<not> is_space c) (remove_greetings (sub_non_alpha (lower text))))"
    by (simp add: tokenize_def split_runs)
  from runs_props [OF this] x have "\<not> is_space x"
    and "x \<in> set (remove_greetings (sub_non_alpha (lower text)))" by auto
  with remove_greetings_chars sub_non_alpha_lower_chars
  have "x \<in> set (ascii_lowercase @ ''+ '')" by blast
  with \<open>\<not> is_space x\<close> blank_is_space show "x \<in> set (ascii_lowercase @ ''+'')"
    by auto
qed

lemma join_chars: "set (join sep ts) \<subseteq> set sep \<union> \<Union> (set ` set ts)"
  by (induction sep ts rule: join.induct) auto

lemma replace_char_chars: "set (replace_char old s) \<subseteq> insert CHR '' '' (set s)"
  by (auto simp: replace_char_def)

lemma remove_short_words_chars: "set (remove_short_words s) \<subseteq> set s"
proof (induction s rule: remove_short_words.induct)
  case 1
  then show ?case by simp
next
  case (2 c cs)
  show ?case
  proof (cases "is_word c")
    case False
    with 2 show ?thesis by auto
  next
    case True
    from 2(1) [OF True refl]
    have "set (remove_short_words (dropWhile is_word cs)) \<subseteq> set (dropWhile is_word cs)" .
    moreover have "set (dropWhile is_word cs) \<subseteq> set cs" by (auto dest: set_dropWhileD)
    moreover have "set (takeWhile is_word cs) \<subseteq> set cs" by (auto dest: set_takeWhileD)
    ultimately show ?thesis using True by (auto simp: Let_def)
  qed
qed

lemma collapse_whitespace_chars: "set (collapse_whitespace s) \<subseteq> insert CHR '' '' (set s)"
proof (induction s rule: collapse_whitespace.induct)
  case 1
  then show ?case by simp
next
  case (2 c cs)
  show ?case
  proof (cases "is_space c")
    case False
    with 2 show ?thesis by auto
  next
    case True
    from 2(1) [OF True]
    have "set (collapse_whitespace (dropWhile is_space cs)) \<subseteq> insert CHR '' '' (set (dropWhile is_space cs))" .
    moreover have "set (dropWhile is_space cs) \<subseteq> set cs" by (auto dest: set_dropWhileD)
    ultimately show ?thesis using True by auto
  qed
qed

lemma strip_chars: "set (strip s) \<subseteq> set s"
  by (auto simp: strip_def dest!: set_dropWhileD)

text \<open>The text of \<open>preprocess_text\<close> from the tokens it keeps.\<close>

lemma preprocess_text_kept_tokens:
  "preprocess_text self text =
     strip (collapse_whitespace (remove_short_words
       (replace_char CHR '','' (replace_char CHR ''.''
          (join '' '' (map (lemmatizer self) (kept_tokens self text)))))))"
  by (simp add: preprocess_text_def kept_tokens_def tokenize_def Let_def)

lemma preprocess_text_chars:
  assumes "\<forall>token \<in> set (kept_tokens self text).
             set (lemmatizer self token) \<subseteq> set (ascii_lowercase @ ''+'')"
  shows "set (preprocess_text self text) \<subseteq> set (ascii_lowercase @ ''+ '')"
proof -
  let ?joined = "join '' '' (map (lemmatizer self) (kept_tokens self text))"
  have j: "set ?joined \<subseteq> set (ascii_lowercase @ ''+ '')"
  proof
    fix x assume "x \<in> set ?joined"
    with join_chars [of "'' ''" "map (lemmatizer self) (kept_tokens self text)"]
    have "x \<in> set '' '' \<or> (\<exists>token \<in> set (kept_tokens self text). x \<in> set (lemmatizer self token))"
      by auto
    then show "x \<in> set (ascii_lowercase @ ''+ '')"
    proof
      assume "x \<in> set '' ''"
      then show ?thesis by simp
    next
      assume "\<exists>token \<in> set (kept_tokens self text). x \<in> set (lemmatizer self token)"
      with assms have "x \<in> set (ascii_lowercase @ ''+'')" by blast
      then show ?thesis by auto
    qed
  qed
  let ?r = "replace_char CHR '','' (replace_char CHR ''.'' ?joined)"
  from replace_char_chars [of "CHR '',''" "replace_char CHR ''.'' ?joined"]
    replace_char_chars [of "CHR ''.''" ?joined] j
  have "set ?r \<subseteq> set (ascii_lowercase @ ''+ '')" by auto
  with remove_short_words_chars [of ?r]
  have "set (remove_short_words ?r) \<subseteq> set (ascii_lowercase @ ''+ '')" by blast
  with collapse_whitespace_chars [of "remove_short_words ?r"]
  have "set (collapse_whitespace (remove_short_words ?r)) \<subseteq> set (ascii_lowercase @ ''+ '')"
    by auto
  with strip_chars [of "collapse_whitespace (remove_short_words ?r)"]
  show ?thesis unfolding preprocess_text_kept_tokens by blast
qed

lemma preprocess_text_word_runs:
  "\<forall>run \<in> set (word_runs (preprocess_text self text)). 3 \<le> length run"
  by (auto simp: preprocess_text_kept_tokens word_runs_strip word_runs_collapse_whitespace
      word_runs_remove_short_words)

lemma no_digit: "c \<in> set (ascii_lowercase @ ''+ '') \<Longrightarrow> c \<notin> set digits"
  by (auto simp: ascii_lowercase_def digits_def)

section \<open>The normaliser: tokens of the result\<close>

lemma collapse_whitespace_start_class:
  assumes "\<forall>c. is_space c \<longrightarrow> \<not> P c"
  shows "(collapse_whitespace s \<noteq> [] \<and> P (hd (collapse_whitespace s))) \<longleftrightarrow> (s \<noteq> [] \<and> P (hd s))"
  using assms blank_is_space by (cases s) auto

lemma runs_collapse_whitespace:
  assumes sp: "\<forall>c. is_space c \<longrightarrow> \<not> P c"
  shows "runs P (collapse_whitespace s) = runs P s"
proof (induction s rule: collapse_whitespace.induct)
  case 1
  then show ?case by simp
next
  case (2 c cs)
  show ?case
  proof (cases "is_space c")
    case True
    with sp have nw: "\<not> P c" by blast
    from sp blank_is_space have nb: "\<not> P CHR '' ''" by blast
    from True have "runs P (collapse_whitespace (c # cs)) =
        runs P (collapse_whitespace (dropWhile is_space cs))"
      using nb by simp
    also from 2(1) [OF True] have "\<dots> = runs P (dropWhile is_space cs)" .
    also have "\<dots> = runs P cs"
      using sp by (rule runs_dropWhile)
    finally show ?thesis using nw by simp
  next
    case False
    from 2(2) [OF False] have IH: "runs P (collapse_whitespace cs) = runs P cs" .
    show ?thesis
    proof (cases "P c")
      case nw: False
      with False IH show ?thesis by simp
    next
      case w: True
      from False have "runs P (collapse_whitespace (c # cs)) =
          runs P (c # collapse_whitespace cs)" by simp
      also have "\<dots> = runs P (c # cs)"
        unfolding runs_Cons [of P c, OF w] IH collapse_whitespace_start_class [OF sp] ..
      finally show ?thesis .
    qed
  qed
qed

lemma runs_strip:
  assumes sp: "\<forall>c. is_space c \<longrightarrow> \<not> P c"
  shows "runs P (strip s) = runs P s"
proof -
  let ?t = "dropWhile is_space s"
  let ?u = "rev (dropWhile is_space (rev ?t))" and ?v = "rev (takeWhile is_space (rev ?t))"
  have "?u @ ?v = rev (takeWhile is_space (rev ?t) @ dropWhile is_space (rev ?t))"
    by (simp only: rev_append)
  also have "\<dots> = ?t"
    by (simp only: takeWhile_dropWhile_id rev_rev_ident)
  finally have t: "?u @ ?v = ?t" .
  have v: "\<forall>c \<in> set ?v. \<not> P c"
    using sp by (auto dest: set_takeWhileD)
  then have start: "?v = [] \<or> \<not> P (hd ?v)"
    by (cases ?v) auto
  have "runs P ?t = runs P (?u @ ?v)" by (simp only: t)
  also have "\<dots> = runs P ?u @ runs P ?v"
    using runs_append [of ?v P ?u] start by blast
  also have "\<dots> = runs P ?u" using runs_none [OF v] by simp
  finally have "runs P ?u = runs P ?t" by simp
  also have "\<dots> = runs P s"
    using sp by (rule runs_dropWhile)
  finally show ?thesis by (simp add: strip_def)
qed

lemma split_strip: "split (strip s) = split s"
  by (simp add: split_runs runs_strip)

lemma split_collapse_whitespace: "split (collapse_whitespace s) = split s"
  by (simp add: split_runs runs_collapse_whitespace)

lemma takeWhile_before:
  "b = [] \<or> \<not> P (hd b) \<Longrightarrow> takeWhile P (a @ b) = takeWhile P a"
  by (induction a) (auto simp: takeWhile_eq_Nil_iff)

lemma dropWhile_before:
  "b = [] \<or> \<not> P (hd b) \<Longrightarrow> dropWhile P (a @ b) = dropWhile P a @ b"
proof (induction a)
  case Nil
  then show ?case by (cases b) auto
next
  case (Cons c a)
  then show ?case by simp
qed

lemma remove_short_words_append:
  "b = [] \<or> \<not> is_word (hd b) \<Longrightarrow>
   remove_short_words (a @ b) = remove_short_words a @ remove_short_words b"
proof (induction a rule: remove_short_words.induct)
  case 1
  then show ?case by simp
next
  case (2 c cs)
  show ?case
  proof (cases "is_word c")
    case False
    with 2 show ?thesis by simp
  next
    case True
    from 2(1) [OF True refl 2(3)]
    have IH: "remove_short_words (dropWhile is_word cs @ b) =
        remove_short_words (dropWhile is_word cs) @ remove_short_words b" .
    from 2(3) have tw: "takeWhile is_word (cs @ b) = takeWhile is_word cs"
      by (rule takeWhile_before)
    from 2(3) have dw: "dropWhile is_word (cs @ b) = dropWhile is_word cs @ b"
      by (rule dropWhile_before)
    from True show ?thesis by (simp add: Let_def tw dw IH)
  qed
qed

lemma remove_short_words_long:
  assumes "\<forall>c \<in> set t. is_word c" and "2 < length t"
  shows "remove_short_words t = t"
proof -
  from assms(2) obtain c cs where t: "t = c # cs" by (cases t) auto
  with assms(1) have w: "is_word c" and tw: "takeWhile is_word cs = cs" and dw: "dropWhile is_word cs = []"
    by (simp_all add: takeWhile_eq_all_conv dropWhile_eq_Nil_conv)
  from assms(2) t have long: "\<not> length (c # cs) \<le> 2" by simp
  have "remove_short_words (c # cs) = (c # cs) @ remove_short_words []"
    by (simp only: remove_short_words.simps(2) w if_True Let_def tw dw long if_False)
  with t show ?thesis by simp
qed

lemma remove_short_words_keeps_other:
  "c \<in> set s \<Longrightarrow> \<not> is_word c \<Longrightarrow> c \<in> set (remove_short_words s)"
proof (induction s rule: remove_short_words.induct)
  case 1
  then show ?case by simp
next
  case (2 d ds)
  show ?case
  proof (cases "is_word d")
    case False
    with 2 show ?thesis by auto
  next
    case True
    with 2(4) 2(3) have "c \<in> set ds" by auto
    then have "c \<in> set (takeWhile is_word ds @ dropWhile is_word ds)" by simp
    then have "c \<in> set (takeWhile is_word ds) \<or> c \<in> set (dropWhile is_word ds)"
      by (simp only: set_append Un_iff)
    moreover have "c \<notin> set (takeWhile is_word ds)" using 2(4) by (auto dest: set_takeWhileD)
    ultimately have "c \<in> set (dropWhile is_word ds)" by blast
    from 2(1) [OF True refl this 2(4)] True show ?thesis by (simp add: Let_def)
  qed
qed

lemma remove_short_words_short:
  assumes "\<forall>c \<in> set t. is_word c" and "length t \<le> 2"
  shows "remove_short_words t = []"
proof (cases t)
  case Nil
  then show ?thesis by simp
next
  case (Cons c cs)
  with assms(1) have w: "is_word c" and tw: "takeWhile is_word cs = cs" and dw: "dropWhile is_word cs = []"
    by (simp_all add: takeWhile_eq_all_conv dropWhile_eq_Nil_conv)
  from assms(2) Cons have short: "length (c # cs) \<le> 2" by simp
  have "remove_short_words (c # cs) = [] @ remove_short_words []"
    by (simp only: remove_short_words.simps(2) w if_True Let_def tw dw short)
  with Cons show ?thesis by simp
qed

lemma remove_short_words_start_class:
  assumes "\<forall>c. is_word c \<longrightarrow> P c"
  shows "s = [] \<or> \<not> P (hd s) \<Longrightarrow>
     remove_short_words s = [] \<or> \<not> P (hd (remove_short_words s))"
  using assms by (cases s) auto

lemma runs_remove_short_words:
  assumes wp: "\<forall>c. is_word c \<longrightarrow> P c"
  shows "runs P (remove_short_words s) =
     filter (\<lambda>x. x \<noteq> []) (map remove_short_words (runs P s))"
  using wp
proof (induction P s rule: runs.induct)
  case (1 P)
  then show ?case by simp
next
  case (2 P c cs)
  note wp = 2(3)
  show ?case
  proof (cases "P c")
    case False
    with wp have "\<not> is_word c" by blast
    with False 2 show ?thesis by simp
  next
    case True
    let ?t = "c # takeWhile P cs" and ?rest = "dropWhile P cs"
    from 2(1) [OF True wp] have IH: "runs P (remove_short_words ?rest) =
        filter (\<lambda>x. x \<noteq> []) (map remove_short_words (runs P ?rest))" .
    have startP: "?rest = [] \<or> \<not> P (hd ?rest)" by (rule dropWhile_start)
    with wp have startW: "?rest = [] \<or> \<not> is_word (hd ?rest)" by blast
    have whole: "c # cs = ?t @ ?rest" by simp
    have "remove_short_words (?t @ ?rest) = remove_short_words ?t @ remove_short_words ?rest"
      using startW by (rule remove_short_words_append)
    then have split_up: "remove_short_words (c # cs) =
        remove_short_words ?t @ remove_short_words ?rest"
      by (simp only: whole [symmetric])
    have start': "remove_short_words ?rest = [] \<or> \<not> P (hd (remove_short_words ?rest))"
      using wp startP by (rule remove_short_words_start_class)
    have allP: "\<forall>x \<in> set (remove_short_words ?t). P x"
    proof
      fix x assume "x \<in> set (remove_short_words ?t)"
      with remove_short_words_chars [of ?t] have "x \<in> set ?t" by blast
      with True show "P x" by (auto dest: set_takeWhileD)
    qed
    have first: "runs P (remove_short_words ?t) =
        filter (\<lambda>x. x \<noteq> []) [remove_short_words ?t]"
    proof (cases "remove_short_words ?t = []")
      case True
      then show ?thesis by simp
    next
      case False
      from runs_all [OF False allP] False show ?thesis by simp
    qed
    have "runs P (remove_short_words (c # cs)) =
        runs P (remove_short_words ?t) @ runs P (remove_short_words ?rest)"
      unfolding split_up using start' by (rule runs_append)
    also have "\<dots> = filter (\<lambda>x. x \<noteq> []) [remove_short_words ?t] @
        filter (\<lambda>x. x \<noteq> []) (map remove_short_words (runs P ?rest))"
      by (simp only: first IH)
    also have "\<dots> = filter (\<lambda>x. x \<noteq> []) (map remove_short_words (?t # runs P ?rest))"
      by simp
    also have "?t # runs P ?rest = runs P (c # cs)" using True by simp
    finally show ?thesis .
  qed
qed

lemma runs_join:
  assumes "\<not> P CHR '' ''" and "\<forall>l \<in> set ls. \<forall>c \<in> set l. P c"
  shows "runs P (join '' '' ls) = filter (\<lambda>x. x \<noteq> []) ls"
  using assms(2)
proof (induction "'' ''" ls rule: join.induct)
  case 1
  then show ?case by simp
next
  case (2 t)
  show ?case
  proof (cases "t = []")
    case True
    then show ?thesis by simp
  next
    case False
    from 2 have "\<forall>c \<in> set t. P c" by simp
    from runs_all [OF False this] False show ?thesis by simp
  qed
next
  case (3 t u ts)
  from 3(2) have rest: "\<forall>l \<in> set (u # ts). \<forall>c \<in> set l. P c" by simp
  from 3(1) [OF rest] have IH: "runs P (join '' '' (u # ts)) = filter (\<lambda>x. x \<noteq> []) (u # ts)" .
  from 3(2) have t: "\<forall>c \<in> set t. P c" by simp
  have first: "runs P t = filter (\<lambda>x. x \<noteq> []) [t]"
  proof (cases "t = []")
    case True
    then show ?thesis by simp
  next
    case False
    from runs_all [OF False t] False show ?thesis by simp
  qed
  have "join '' '' (t # u # ts) = t @ (CHR '' '' # join '' '' (u # ts))" by simp
  moreover have "runs P (t @ (CHR '' '' # join '' '' (u # ts))) =
      runs P t @ runs P (CHR '' '' # join '' '' (u # ts))"
    by (rule runs_append) (simp add: assms(1))
  moreover have "runs P (CHR '' '' # join '' '' (u # ts)) = runs P (join '' '' (u # ts))"
    using assms(1) by simp
  ultimately have "runs P (join '' '' (t # u # ts)) =
      filter (\<lambda>x. x \<noteq> []) [t] @ filter (\<lambda>x. x \<noteq> []) (u # ts)"
    by (simp only: first IH)
  then show ?case by simp
qed

lemma replace_char_absent: "old \<notin> set s \<Longrightarrow> replace_char old s = s"
  unfolding replace_char_def by (induction s) auto

lemma letters_plus_not_space: "c \<in> set (ascii_lowercase @ ''+'') \<Longrightarrow> \<not> is_space c"
  by (auto simp: ascii_lowercase_def is_space_def whitespace_def)

lemma plus_not_word: "\<not> is_word CHR ''+''"
  by (simp add: is_word_def ascii_lowercase_def ascii_uppercase_def digits_def latin1_word_chars_def)

text \<open>
  The tokens of the result, when the lemmatiser returns small letters and \<open>+\<close> only:
  what it returns for the kept tokens, without the short words, empty strings left out.
\<close>

lemma preprocess_text_tokens:
  assumes h: "\<forall>token \<in> set (kept_tokens self text).
             set (lemmatizer self token) \<subseteq> set (ascii_lowercase @ ''+'')"
  shows "split (preprocess_text self text) =
     filter (\<lambda>x. x \<noteq> [])
       (map remove_short_words
          (filter (\<lambda>x. x \<noteq> []) (map (lemmatizer self) (kept_tokens self text))))"
proof -
  let ?lems = "map (lemmatizer self) (kept_tokens self text)"
  let ?joined = "join '' '' ?lems"
  have chars: "set ?joined \<subseteq> set (ascii_lowercase @ ''+ '')"
  proof
    fix x assume "x \<in> set ?joined"
    with join_chars [of "'' ''" ?lems]
    have "x \<in> set '' '' \<or> (\<exists>token \<in> set (kept_tokens self text). x \<in> set (lemmatizer self token))"
      by auto
    then show "x \<in> set (ascii_lowercase @ ''+ '')"
    proof
      assume "x \<in> set '' ''"
      then show ?thesis by simp
    next
      assume "\<exists>token \<in> set (kept_tokens self text). x \<in> set (lemmatizer self token)"
      with h have "x \<in> set (ascii_lowercase @ ''+'')" by blast
      then show ?thesis by auto
    qed
  qed
  have "CHR ''.'' \<notin> set (ascii_lowercase @ ''+ '')" and "CHR '','' \<notin> set (ascii_lowercase @ ''+ '')"
    by (simp_all add: ascii_lowercase_def)
  with chars have "CHR ''.'' \<notin> set ?joined" and "CHR '','' \<notin> set ?joined" by blast+
  then have repl: "replace_char CHR '','' (replace_char CHR ''.'' ?joined) = ?joined"
    by (simp add: replace_char_absent)
  have wp: "\<forall>c. is_word c \<longrightarrow> \<not> is_space c" using space_not_word by blast
  have nb: "\<not> \<not> is_space CHR '' ''" using blank_is_space by simp
  have lp: "\<forall>l \<in> set ?lems. \<forall>c \<in> set l. \<not> is_space c"
  proof (intro ballI)
    fix l c assume "l \<in> set ?lems" and c: "c \<in> set l"
    then obtain token where "token \<in> set (kept_tokens self text)" and "l = lemmatizer self token"
      by auto
    with h c have "c \<in> set (ascii_lowercase @ ''+'')" by blast
    then show "\<not> is_space c" by (rule letters_plus_not_space)
  qed
  have "split (preprocess_text self text) = split (remove_short_words ?joined)"
    by (simp only: preprocess_text_kept_tokens repl split_strip split_collapse_whitespace)
  also have "\<dots> = filter (\<lambda>x. x \<noteq> []) (map remove_short_words (split ?joined))"
    unfolding split_runs using wp by (rule runs_remove_short_words)
  also have "split ?joined = filter (\<lambda>x. x \<noteq> []) ?lems"
    unfolding split_runs using nb lp by (rule runs_join)
  finally show ?thesis .
qed

section \<open>The workflow: results\<close>

text \<open>The run on the sixteen tickets, evaluated once.\<close>

lemma run_tickets16:
  "cluster_tickets sample_clustering (pandas_with tickets16) sk_two_points =
     (trace16, Inr (''/repo/output/clustered_tickets.csv'', output16))"
  by code_simp

lemma empty_range_fails:
  "length X < 16 \<Longrightarrow>
   find_optimal_clusters sk X 10 =
     ([], Inl (ValueError ''attempt to get argmax of an empty sequence''))"
proof -
  assume "length X < 16"
  then have "[2..min 10 (int (length X) div 8)] = []" by simp
  then show ?thesis by (simp add: find_optimal_clusters_select select_from_empty)
qed

text \<open>
  Claim C10. The final \<open>KMeans\<close> run of \<open>cluster_tickets\<close> has the parameters of the
  run that \<open>find_optimal_clusters\<close> made for the chosen count (\<open>k-means++\<close>, 300
  iterations, 10 initialisations, seed 42), on the same matrix: whenever the workflow
  succeeds, the last call of its trace, with its parameters, its matrix and its labels,
  already occurs among the calls of the selection phase. (That equal parameters give equal labels is the determinism of
  \<open>KMeans\<close> under an integer seed, which the model has by taking \<open>kmeans_fit\<close> as a
  function.)
\<close>

theorem final_run_repeats_selection_run:
  assumes "cluster_tickets self pd sk = (trace, Inr (path, out))"
  shows "\<exists>docs X sel k labels.
     tfidf_fit_transform sk docs = Inr X \<and>
     find_optimal_clusters sk X 10 = (sel, Inr k) \<and>
     trace = TfidfCall docs # sel @
       [KMeansCall \<lparr> n_clusters = k, init_method = ''k-means++'', max_iter = 300,
                      n_init = 10, random_state = 42 \<rparr> X (Inr labels)] \<and>
     KMeansCall \<lparr> n_clusters = k, init_method = ''k-means++'', max_iter = 300,
                   n_init = 10, random_state = 42 \<rparr> X (Inr labels) \<in> set sel"
proof -
  from cluster_tickets_Inr [OF assms] obtain description_clean X sel k labels where
    X: "tfidf_fit_transform sk (map py_str description_clean) = Inr X"
    and sel: "find_optimal_clusters sk X 10 = (sel, Inr k)"
    and fit: "kmeans_fit sk \<lparr> n_clusters = k, init_method = ''k-means++'', max_iter = 300,
                      n_init = 10, random_state = 42 \<rparr> X = Inr labels"
    and trace: "trace = TfidfCall (map py_str description_clean) # sel @
       [KMeansCall \<lparr> n_clusters = k, init_method = ''k-means++'', max_iter = 300,
                      n_init = 10, random_state = 42 \<rparr> X (Inr labels)]"
    by blast
  from sel have "select_from sk X [2..min 10 (int (length X) div 8)] = (sel, Inr k)"
    by (simp add: find_optimal_clusters_select)
  from select_from_fits [OF this] fit
  have "KMeansCall \<lparr> n_clusters = k, init_method = ''k-means++'', max_iter = 300,
                   n_init = 10, random_state = 42 \<rparr> X (Inr labels) \<in> set sel"
    by simp
  with X sel trace show ?thesis by blast
qed

text \<open>On the sixteen tickets the last call of the trace is one of the selection phase.\<close>

theorem final_run_repeats_selection_run_witness:
  "cluster_tickets sample_clustering (pandas_with tickets16) sk_two_points =
     (trace16, Inr (''/repo/output/clustered_tickets.csv'', output16))
   \<and> last trace16 \<in> set (butlast (tl trace16))"
proof -
  from final_run_repeats_selection_run [OF run_tickets16]
  obtain docs sel c where eq: "trace16 = TfidfCall docs # sel @ [c]" and mem: "c \<in> set sel"
    by blast
  have "last (TfidfCall docs # sel @ [c]) \<in> set (butlast (tl (TfidfCall docs # sel @ [c])))"
    using mem by simp
  then have "last trace16 \<in> set (butlast (tl trace16))" by (simp only: eq [symmetric])
  with run_tickets16 show ?thesis by simp
qed

text \<open>
  Claim C8. When the file is read, has both columns, and every question normalises to the
  empty string, the vectoriser is called with no document, no \<open>KMeans\<close> run is made and
  the workflow ends in an error: the one the vectoriser raises, or, should the vectoriser
  return a matrix (with no row, one per document), the \<open>ValueError\<close> of the selector's
  empty range.
\<close>

theorem empty_corpus_fails_before_clustering:
  assumes raw: "read_csv pd (input_file self) = Inr raw"
    and ids: "get_column raw ''Inquiry_id'' = Inr ids"
    and qs: "get_column raw ''Question'' = Inr qs"
    and empty: "\<forall>q \<in> set qs. preprocess_text self (py_str q) = []"
    and rows: "\<forall>X. tfidf_fit_transform sk [] = Inr X \<longrightarrow> length X = 0"
  shows "fst (cluster_tickets self pd sk) = [TfidfCall []]
     \<and> (\<exists>e. snd (cluster_tickets self pd sk) = Inl e)
     \<and> (\<forall>e. tfidf_fit_transform sk [] = Inl e \<longrightarrow> snd (cluster_tickets self pd sk) = Inl e)"
proof -
  let ?df = "with_clean_text self ids qs"
  let ?clean = "?df\<lparr> rows := filter (\<lambda>r. r ! 2 \<noteq> Str []) (rows ?df) \<rparr>"
  from raw ids qs have load: "load_and_clean self pd = Inr (?df, ?clean)"
    unfolding load_and_clean_Inr by blast
  have "r ! 2 = Str []" if "r \<in> set (rows ?df)" for r
  proof -
    from that obtain i q where "(i, q) \<in> set (zip ids qs)"
      and r: "r = [i, q, Str (preprocess_text self (py_str q))]"
      by (auto simp: with_clean_text_def)
    then have "q \<in> set qs" by (meson set_zip_rightD)
    with empty r show ?thesis by simp
  qed
  then have norows: "rows ?clean = []" by (simp add: filter_empty_conv)
  have cols: "columns ?clean = [''Inquiry_id'', ''Question'', ''Description_clean'']"
    by (simp add: with_clean_text_def)
  from norows cols have docs: "get_column ?clean ''Description_clean'' = Inr []"
    by (simp add: get_column_def)
  show ?thesis
  proof (cases "tfidf_fit_transform sk []")
    case (Inl e)
    with load docs show ?thesis by (simp add: cluster_tickets_def)
  next
    case (Inr X)
    with rows have "length X < 16" by simp
    from empty_range_fails [OF this, of sk] Inr load docs show ?thesis
      by (simp add: cluster_tickets_def)
  qed
qed

text \<open>Two tickets that hold greetings and digits only.\<close>

theorem empty_corpus_fails_before_clustering_witness:
  "fst (cluster_tickets sample_clustering (pandas_with greetings_only) sk_two_points) = [TfidfCall []]
   \<and> snd (cluster_tickets sample_clustering (pandas_with greetings_only) sk_two_points)
       = Inl (ValueError ''empty vocabulary'')"
proof -
  have raw: "read_csv (pandas_with greetings_only) (input_file sample_clustering) = Inr greetings_only"
    by code_simp
  have ids: "get_column greetings_only ''Inquiry_id'' = Inr [Num 1, Num 2]"
    by code_simp
  have qs: "get_column greetings_only ''Question'' = Inr [Str ''Hi'', Str ''Hello 123'']"
    by code_simp
  have e1: "preprocess_text sample_clustering ''Hi'' = []" by code_simp
  have e2: "preprocess_text sample_clustering ''Hello 123'' = []" by code_simp
  from e1 e2 have empty:
    "\<forall>q \<in> set [Str ''Hi'', Str ''Hello 123'']. preprocess_text sample_clustering (py_str q) = []"
    by simp
  have tf: "tfidf_fit_transform sk_two_points [] = Inl (ValueError ''empty vocabulary'')"
    by (simp add: sk_two_points_def)
  then have rows: "\<forall>X. tfidf_fit_transform sk_two_points [] = Inr X \<longrightarrow> length X = 0"
    by simp
  from empty_corpus_fails_before_clustering [OF raw ids qs empty rows] tf
  show ?thesis by blast
qed

text \<open>
  Claim C7, as amended. The frame handed to \<open>to_csv\<close>, at the output path, has four
  columns: the identifier, the free text, the cleaned text \<open>Description_clean\<close> that the
  workflow added and never drops, and the label. Every row holds the clean text of its
  question and an integer label, the rows are sorted by label, and their identifiers and
  questions are those of the input file.
\<close>

theorem output_file_contents:
  assumes "cluster_tickets self pd sk = (trace, Inr (path, out))"
  shows "path = output_file self
     \<and> columns out = [''Inquiry_id'', ''Question'', ''Description_clean'', ''Label'']
     \<and> (\<forall>r \<in> set (rows out). \<exists>i q l. r = [i, q, Str (preprocess_text self (py_str q)), Num l])
     \<and> sorted (map (\<lambda>r. the_number (r ! 3)) (rows out))
     \<and> (\<exists>raw ids qs.
           read_csv pd (input_file self) = Inr raw \<and>
           get_column raw ''Inquiry_id'' = Inr ids \<and>
           get_column raw ''Question'' = Inr qs \<and>
           mset (map (\<lambda>r. (r ! 0, r ! 1)) (rows out)) = mset (zip ids qs))"
proof -
  from assms obtain df clean_data description_clean X sel k labels clean_data' df' where
    load: "load_and_clean self pd = Inr (df, clean_data)"
    and setc: "set_column df ''Label'' (map Num labels) = Inr df'"
    and sortv: "sort_values pd df' ''Label'' = Inr out"
    and path: "path = output_file self"
    by (rule cluster_tickets_InrE)
  from load obtain raw ids qs where raw: "read_csv pd (input_file self) = Inr raw"
    and ids: "get_column raw ''Inquiry_id'' = Inr ids"
    and qs: "get_column raw ''Question'' = Inr qs"
    and df: "df = with_clean_text self ids qs"
    unfolding load_and_clean_Inr by blast
  let ?f = "\<lambda>((i, q), l). [i, q, Str (preprocess_text self (py_str q)), Num l]"
  let ?key = "\<lambda>r. the_number (r ! 3)"
  from setc df have cols: "columns df' = [''Inquiry_id'', ''Question'', ''Description_clean'', ''Label'']"
    and rws: "rows df' = map ?f (zip (zip ids qs) labels)"
    and len: "length labels = length (zip ids qs)"
    by (simp_all add: labelled_rows)
  have shape: "\<exists>i q l. r = [i, q, Str (preprocess_text self (py_str q)), Num l]"
    if "r \<in> set (rows df')" for r
    using that unfolding rws by auto
  then have nums: "\<forall>r \<in> set (rows df'). is_number (r ! 3)"
    by fastforce
  from sort_values_labels [OF cols nums sortv]
  have oc: "columns out = columns df'"
    and srt: "sorted (map ?key (rows out))"
    and perm: "mset (rows out) = mset (rows df')"
    by blast+
  from oc cols have c: "columns out = [''Inquiry_id'', ''Question'', ''Description_clean'', ''Label'']"
    by simp
  from perm have "set (rows out) = set (rows df')" by (rule mset_eq_setD)
  with shape
  have s: "\<forall>r \<in> set (rows out). \<exists>i q l. r = [i, q, Str (preprocess_text self (py_str q)), Num l]"
    by simp
  have "map (\<lambda>r. (r ! 0, r ! 1)) (rows df') = map fst (zip (zip ids qs) labels)"
    unfolding rws by (simp add: case_prod_unfold)
  also from len have "\<dots> = zip ids qs" by (simp add: map_fst_zip)
  finally have "mset (map (\<lambda>r. (r ! 0, r ! 1)) (rows df')) = mset (zip ids qs)" by simp
  with perm have "mset (map (\<lambda>r. (r ! 0, r ! 1)) (rows out)) = mset (zip ids qs)"
    by (metis mset_map)
  with path c s srt raw ids qs show ?thesis by blast
qed

text \<open>The sixteen tickets: four columns, labels in ascending order.\<close>

theorem output_file_contents_witness:
  "cluster_tickets sample_clustering (pandas_with tickets16) sk_two_points =
     (trace16, Inr (''/repo/output/clustered_tickets.csv'', output16))
   \<and> columns output16 = [''Inquiry_id'', ''Question'', ''Description_clean'', ''Label'']
   \<and> sorted (map (\<lambda>r. the_number (r ! 3)) (rows output16))"
proof -
  from output_file_contents [OF run_tickets16]
  have "columns output16 = [''Inquiry_id'', ''Question'', ''Description_clean'', ''Label'']"
    and "sorted (map (\<lambda>r. the_number (r ! 3)) (rows output16))"
    by blast+
  with run_tickets16 show ?thesis by blast
qed

text \<open>
  Claim C7 as stated fails: the file written for the sixteen tickets has the column
  \<open>Description_clean\<close> besides the identifier, the free text and the label.
\<close>

theorem output_columns_counterexample:
  "snd (cluster_tickets sample_clustering (pandas_with tickets16) sk_two_points) =
     Inr (''/repo/output/clustered_tickets.csv'', output16)
   \<and> columns output16 = [''Inquiry_id'', ''Question'', ''Description_clean'', ''Label'']
   \<and> columns output16 \<noteq> [''Inquiry_id'', ''Question'', ''Label'']"
  using run_tickets16 by (simp add: output16_def)

text \<open>
  Claim C1 describes a labelling of all input records that leaves the records with empty
  clean text unlabelled. The code assigns the label array, which has one entry per
  \<^emph>\<open>clean\<close> record, to the frame of \<^emph>\<open>all\<close> records, by position. A successful run
  therefore has no record with empty clean text.
\<close>

lemma success_needs_all_rows_clean:
  assumes run: "cluster_tickets self pd sk = (trace, Inr (path, out))"
    and raw: "read_csv pd (input_file self) = Inr raw"
    and qs: "get_column raw ''Question'' = Inr qs"
  shows "\<forall>q \<in> set qs. preprocess_text self (py_str q) \<noteq> []"
proof -
  from run obtain df clean_data description_clean X sel k labels clean_data' df' where
    load: "load_and_clean self pd = Inr (df, clean_data)"
    and set1: "set_column clean_data ''Label'' (map Num labels) = Inr clean_data'"
    and set2: "set_column df ''Label'' (map Num labels) = Inr df'"
    by (rule cluster_tickets_InrE)
  from load obtain raw' ids qs' where raw': "read_csv pd (input_file self) = Inr raw'"
    and ids: "get_column raw' ''Inquiry_id'' = Inr ids"
    and qs': "get_column raw' ''Question'' = Inr qs'"
    and df: "df = with_clean_text self ids qs'"
    and cd: "clean_data = df\<lparr> rows := filter (\<lambda>r. r ! 2 \<noteq> Str []) (rows df) \<rparr>"
    unfolding load_and_clean_Inr by blast
  from raw raw' have "raw' = raw" by simp
  with qs qs' have "qs' = qs" by simp
  from ids qs' obtain a b where "ids = map (\<lambda>r. r ! a) (rows raw')" and "qs' = map (\<lambda>r. r ! b) (rows raw')"
    unfolding get_column_Inr by blast
  then have leq: "length ids = length qs'" by simp
  from set_column_Inr_length [OF set1] set_column_Inr_length [OF set2]
  have "length (rows clean_data) = length (rows df)" by simp
  with cd have "length (filter (\<lambda>r. r ! 2 \<noteq> Str []) (rows df)) = length (rows df)" by simp
  from filter_keeps_all [OF this] have all: "\<forall>r \<in> set (rows df). r ! 2 \<noteq> Str []" .
  show ?thesis
  proof
    fix q assume "q \<in> set qs"
    with \<open>qs' = qs\<close> have "q \<in> set qs'" by simp
    from in_set_impl_in_set_zip2 [OF leq this] obtain i where iq: "(i, q) \<in> set (zip ids qs')" .
    have rws: "rows df = map (\<lambda>(i, q). [i, q, Str (preprocess_text self (py_str q))]) (zip ids qs')"
      by (simp add: df with_clean_text_def)
    from iq have "(\<lambda>(i, q). [i, q, Str (preprocess_text self (py_str q))]) (i, q)
        \<in> (\<lambda>(i, q). [i, q, Str (preprocess_text self (py_str q))]) ` set (zip ids qs')"
      by (rule imageI)
    then have "[i, q, Str (preprocess_text self (py_str q))] \<in> set (rows df)"
      unfolding rws by simp
    with all have "[i, q, Str (preprocess_text self (py_str q))] ! 2 \<noteq> Str []" by blast
    then show "preprocess_text self (py_str q) \<noteq> []" by simp
  qed
qed

text \<open>
  Claim C1 at a failing input: sixteen tickets and a seventeenth that normalises to the
  empty string. The selection and the final clustering run as for the sixteen, and the
  assignment of the sixteen labels to the seventeen rows raises \<open>ValueError\<close>; nothing is
  written.
\<close>

theorem labelling_fails_on_dropped_record:
  "preprocess_text sample_clustering ''Hi'' = []
   \<and> cluster_tickets sample_clustering (pandas_with tickets17) sk_two_points =
       (trace16, Inl (ValueError ''Length of values does not match length of index''))"
  by code_simp

section \<open>The normaliser: results\<close>

lemma operators_not_stop_words:
  "token \<in> set operators \<Longrightarrow> token \<notin> initialize_stop_words lib"
  by (simp add: initialize_stop_words_def)

lemma operators_without_plus: "token \<in> set operators \<Longrightarrow> CHR ''+'' \<notin> set token"
  by (auto simp: operators_def)

text \<open>
  The tokens handed to the lemmatiser consist of small letters and \<open>+\<close>, by the first
  two steps of \<open>preprocess_text\<close>; so a lemmatiser that maps such words to such words
  returns such words for all of them.
\<close>

lemma lemmatizer_on_kept_tokens:
  assumes "\<forall>token. set token \<subseteq> set (ascii_lowercase @ ''+'') \<longrightarrow>
             set (lemmatizer self token) \<subseteq> set (ascii_lowercase @ ''+'')"
  shows "\<forall>token \<in> set (kept_tokens self text).
           set (lemmatizer self token) \<subseteq> set (ascii_lowercase @ ''+'')"
proof
  fix token
  assume "token \<in> set (kept_tokens self text)"
  then have "token \<in> set (tokenize text)" by (simp add: kept_tokens_def)
  then have "set token \<subseteq> set (ascii_lowercase @ ''+'')" by (rule tokenize_chars)
  with assms show "set (lemmatizer self token) \<subseteq> set (ascii_lowercase @ ''+'')" by blast
qed

lemma sample_lemmatizer_letters:
  "\<forall>token. set token \<subseteq> set (ascii_lowercase @ ''+'') \<longrightarrow>
     set (lemmatizer sample_clustering token) \<subseteq> set (ascii_lowercase @ ''+'')"
proof (intro allI impI)
  fix token :: string
  assume t: "set token \<subseteq> set (ascii_lowercase @ ''+'')"
  have l: "lemmatizer sample_clustering token =
      (case map_of [(''needs'', ''need''), (''printers'', ''printer''),
                    (''passwords'', ''password'')] token of
         Some lemma \<Rightarrow> lemma | None \<Rightarrow> token)"
    by (simp add: sample_clustering_def init_def nltk_excerpt_def)
  have "set ''need'' \<subseteq> set (ascii_lowercase @ ''+'')"
    and "set ''printer'' \<subseteq> set (ascii_lowercase @ ''+'')"
    and "set ''password'' \<subseteq> set (ascii_lowercase @ ''+'')"
    by (simp_all add: ascii_lowercase_def)
  with t show "set (lemmatizer sample_clustering token) \<subseteq> set (ascii_lowercase @ ''+'')"
    unfolding l by (simp split: if_splits)
qed

text \<open>
  Claim C3, as amended. Provided the lemmatiser maps a word of small letters and \<open>+\<close> to
  a word of small letters and \<open>+\<close>, the result of \<open>preprocess_text\<close> consists of small
  letters, \<open>+\<close> and spaces, whatever the text: it has no digit and no punctuation other
  than \<open>+\<close> and the space. Every word of the result (maximal run of word characters) has
  at least three characters; so a token of the result is shorter than three characters
  only if it contains \<open>+\<close>.
\<close>

theorem preprocess_text_output_shape:
  assumes "\<forall>token. set token \<subseteq> set (ascii_lowercase @ ''+'') \<longrightarrow>
             set (lemmatizer self token) \<subseteq> set (ascii_lowercase @ ''+'')"
  shows "set (preprocess_text self text) \<subseteq> set (ascii_lowercase @ ''+ '')
     \<and> (\<forall>c \<in> set (preprocess_text self text). c \<notin> set digits)
     \<and> (\<forall>run \<in> set (word_runs (preprocess_text self text)). 3 \<le> length run)
     \<and> (\<forall>token \<in> set (split (preprocess_text self text)).
           CHR ''+'' \<notin> set token \<longrightarrow> 3 \<le> length token)"
proof -
  let ?out = "preprocess_text self text"
  from assms have "\<forall>token \<in> set (kept_tokens self text).
      set (lemmatizer self token) \<subseteq> set (ascii_lowercase @ ''+'')"
    by (rule lemmatizer_on_kept_tokens)
  then have chars: "set ?out \<subseteq> set (ascii_lowercase @ ''+ '')"
    by (rule preprocess_text_chars)
  then have digits: "\<forall>c \<in> set ?out. c \<notin> set digits" using no_digit by blast
  have words: "\<forall>run \<in> set (word_runs ?out). 3 \<le> length run"
    by (rule preprocess_text_word_runs)
  have "3 \<le> length token" if tok: "token \<in> set (split ?out)" and plus: "CHR ''+'' \<notin> set token"
    for token
  proof -
    from tok have "token \<in> set (runs (\<lambda>c. \<not> is_space c) ?out)" by (simp add: split_runs)
    from runs_props [OF this] have sub: "set token \<subseteq> set ?out"
      and ns: "\<forall>c \<in> set token. \<not> is_space c" by auto
    have "is_word c" if "c \<in> set token" for c
    proof -
      from that sub chars have "c \<in> set (ascii_lowercase @ ''+ '')" by blast
      moreover from that ns blank_is_space have "c \<noteq> CHR '' ''" by blast
      moreover from that plus have "c \<noteq> CHR ''+''" by blast
      ultimately have "c \<in> set ascii_lowercase" by simp
      then show ?thesis by (rule lowercase_is_word)
    qed
    then have "token \<in> set (word_runs ?out)" using tok by (intro word_token_is_run) auto
    with words show ?thesis by blast
  qed
  with chars digits words show ?thesis by blast
qed

text \<open>
  The lemmatiser of the sample object knows three plurals, whose lemmas are words of
  small letters, and returns every other word as it is. A text with a capital, digits,
  punctuation, a greeting, a stop word and two plurals.
\<close>

theorem preprocess_text_output_shape_witness:
  "preprocess_text sample_clustering ''He needs 2 printers, kindly!'' = ''need printer''
   \<and> set (preprocess_text sample_clustering ''He needs 2 printers, kindly!'')
       \<subseteq> set (ascii_lowercase @ ''+ '')
   \<and> CHR ''2'' \<notin> set (preprocess_text sample_clustering ''He needs 2 printers, kindly!'')"
proof -
  let ?text = "''He needs 2 printers, kindly!''"
  have out: "preprocess_text sample_clustering ?text = ''need printer''" by code_simp
  from preprocess_text_output_shape [OF sample_lemmatizer_letters, of ?text]
  have chars: "set (preprocess_text sample_clustering ?text) \<subseteq> set (ascii_lowercase @ ''+ '')"
    and digits: "\<forall>c \<in> set (preprocess_text sample_clustering ?text). c \<notin> set digits"
    by blast+
  have "CHR ''2'' \<in> set digits" by (simp add: digits_def)
  with digits have "CHR ''2'' \<notin> set (preprocess_text sample_clustering ?text)" by blast
  with out chars show ?thesis by blast
qed

text \<open>
  Claim C3 as stated fails: \<open>+\<close> is kept on purpose by the first substitution, and the
  removal of short words takes the letter of \<open>c++\<close> and leaves a token of two characters.
\<close>

theorem plus_survives_counterexample:
  "preprocess_text sample_clustering ''C++'' = ''++''
   \<and> CHR ''+'' \<in> set ''++''
   \<and> split ''++'' = [''++'']
   \<and> length ''++'' < 3"
proof -
  have "preprocess_text sample_clustering ''C++'' = ''++''" by code_simp
  moreover have "split ''++'' = [''++'']" by code_simp
  ultimately show ?thesis by simp
qed

text \<open>
  Claim C4, as amended. Let the lemmatiser map a word of small letters and \<open>+\<close> to a word
  of small letters and \<open>+\<close>. The stop words are removed from the tokens of the text
  before these are lemmatised: the result contains no token of the stop-word set,
  provided that no token of the text that is not a stop word has a stop word for its
  lemma, and that no stop word contains \<open>+\<close>. For a stop-word set built by
  \<open>_initialize_stop_words\<close>, every token of the text that is a preserved operator of at
  least three letters, and that the lemmatiser leaves as it is, is a token of the result.
\<close>

theorem stop_words_and_operators:
  assumes lem: "\<forall>token. set token \<subseteq> set (ascii_lowercase @ ''+'') \<longrightarrow>
             set (lemmatizer self token) \<subseteq> set (ascii_lowercase @ ''+'')"
  shows "((\<forall>token \<in> set (tokenize text).
             token \<notin> stop_words self \<longrightarrow> lemmatizer self token \<notin> stop_words self)
          \<and> (\<forall>w \<in> stop_words self. CHR ''+'' \<notin> set w) \<longrightarrow>
        (\<forall>token \<in> set (split (preprocess_text self text)). token \<notin> stop_words self))
     \<and> (stop_words self = initialize_stop_words lib \<longrightarrow>
        (\<forall>token \<in> set (tokenize text).
           token \<in> set operators \<and> 2 < length token \<and> lemmatizer self token = token \<longrightarrow>
           token \<in> set (split (preprocess_text self text))))"
proof (intro conjI impI ballI)
  from lem have klem: "\<forall>token \<in> set (kept_tokens self text).
      set (lemmatizer self token) \<subseteq> set (ascii_lowercase @ ''+'')"
    by (rule lemmatizer_on_kept_tokens)
  fix token
  assume h: "(\<forall>token \<in> set (tokenize text).
             token \<notin> stop_words self \<longrightarrow> lemmatizer self token \<notin> stop_words self)
          \<and> (\<forall>w \<in> stop_words self. CHR ''+'' \<notin> set w)"
    and tok: "token \<in> set (split (preprocess_text self text))"
  from tok obtain t where t: "t \<in> set (kept_tokens self text)"
    and ne: "remove_short_words (lemmatizer self t) \<noteq> []"
    and token: "token = remove_short_words (lemmatizer self t)"
    unfolding preprocess_text_tokens [OF klem] by auto
  from t have "t \<in> set (tokenize text)" and "t \<notin> stop_words self"
    by (simp_all add: kept_tokens_def)
  with h have free: "lemmatizer self t \<notin> stop_words self" by blast
  let ?l = "lemmatizer self t"
  show "token \<notin> stop_words self"
  proof (cases "CHR ''+'' \<in> set ?l")
    case True
    from remove_short_words_keeps_other [OF True plus_not_word] token
    have "CHR ''+'' \<in> set token" by simp
    with h show ?thesis by blast
  next
    case False
    have words: "\<forall>c \<in> set ?l. is_word c"
    proof
      fix c assume c: "c \<in> set ?l"
      with klem t have "c \<in> set (ascii_lowercase @ ''+'')" by blast
      with c False have "c \<in> set ascii_lowercase" by auto
      then show "is_word c" by (rule lowercase_is_word)
    qed
    have "2 < length ?l"
    proof (rule ccontr)
      assume "\<not> 2 < length ?l"
      then have "length ?l \<le> 2" by simp
      from remove_short_words_short [OF words this] ne show False by simp
    qed
    from remove_short_words_long [OF words this] token have "token = ?l" by simp
    with free show ?thesis by simp
  qed
next
  from lem have klem: "\<forall>token \<in> set (kept_tokens self text).
      set (lemmatizer self token) \<subseteq> set (ascii_lowercase @ ''+'')"
    by (rule lemmatizer_on_kept_tokens)
  fix token
  assume init: "stop_words self = initialize_stop_words lib"
    and tok: "token \<in> set (tokenize text)"
    and op: "token \<in> set operators \<and> 2 < length token \<and> lemmatizer self token = token"
  from op init have "token \<notin> stop_words self" by (simp add: operators_not_stop_words)
  with tok have kept: "token \<in> set (kept_tokens self text)" by (simp add: kept_tokens_def)
  have words: "\<forall>c \<in> set token. is_word c"
  proof
    fix c assume c: "c \<in> set token"
    with tokenize_chars [OF tok] have "c \<in> set (ascii_lowercase @ ''+'')" by blast
    moreover from op c operators_without_plus have "c \<noteq> CHR ''+''" by blast
    ultimately have "c \<in> set ascii_lowercase" by auto
    then show "is_word c" by (rule lowercase_is_word)
  qed
  from op have long: "2 < length token" by simp
  from remove_short_words_long [OF words long] have same: "remove_short_words token = token" .
  from long have ne: "token \<noteq> []" by auto
  from kept have "lemmatizer self token \<in> set (map (lemmatizer self) (kept_tokens self text))"
    by (simp only: set_map) (rule imageI)
  with op have "token \<in> set (map (lemmatizer self) (kept_tokens self text))"
    by simp
  with ne have "token \<in> set (filter (\<lambda>x. x \<noteq> []) (map (lemmatizer self) (kept_tokens self text)))"
    by simp
  then have "remove_short_words token \<in> set (map remove_short_words
      (filter (\<lambda>x. x \<noteq> []) (map (lemmatizer self) (kept_tokens self text))))"
    by (simp only: set_map) (rule imageI)
  with same ne show "token \<in> set (split (preprocess_text self text))"
    unfolding preprocess_text_tokens [OF klem] by simp
qed

text \<open>
  The operator \<open>not\<close>, which NLTK lists as a stop word, is in the result; the stop word
  \<open>are\<close> is not, and the token \<open>printer\<close> of the result is no stop word.
\<close>

theorem stop_words_and_operators_witness:
  "preprocess_text sample_clustering ''My printers are not working'' = ''printer not working''
   \<and> ''not'' \<in> set (split (preprocess_text sample_clustering ''My printers are not working''))
   \<and> ''printer'' \<notin> stop_words sample_clustering"
proof -
  let ?text = "''My printers are not working''"
  have tokens: "tokenize ?text = [''my'', ''printers'', ''are'', ''not'', ''working'']"
    by code_simp
  have lems: "map (lemmatizer sample_clustering) [''my'', ''printers'', ''are'', ''not'', ''working'']
      = [''my'', ''printer'', ''are'', ''not'', ''working'']"
    by code_simp
  have out: "preprocess_text sample_clustering ?text = ''printer not working''"
    by code_simp
  have init: "stop_words sample_clustering = initialize_stop_words nltk_excerpt"
    by (simp add: sample_clustering_def init_def)
  have op: "''not'' \<in> set (tokenize ?text) \<and> ''not'' \<in> set operators \<and> 2 < length ''not''
      \<and> lemmatizer sample_clustering ''not'' = ''not''"
    using tokens lems by (simp add: operators_def)
  from stop_words_and_operators [OF sample_lemmatizer_letters, of ?text nltk_excerpt] init op
  have survives: "''not'' \<in> set (split (preprocess_text sample_clustering ?text))"
    by blast
  have "list_all (\<lambda>token. token \<notin> stop_words sample_clustering \<longrightarrow>
        lemmatizer sample_clustering token \<notin> stop_words sample_clustering)
      [''my'', ''printers'', ''are'', ''not'', ''working'']"
    by code_simp
  then have free: "\<forall>token \<in> set (tokenize ?text). token \<notin> stop_words sample_clustering \<longrightarrow>
      lemmatizer sample_clustering token \<notin> stop_words sample_clustering"
    unfolding tokens by (simp only: list_all_iff)
  have noplus: "\<forall>w \<in> stop_words sample_clustering. CHR ''+'' \<notin> set w"
    by code_simp
  have "split ''printer not working'' = [''printer'', ''not'', ''working'']" by code_simp
  with out have "''printer'' \<in> set (split (preprocess_text sample_clustering ?text))" by simp
  with stop_words_and_operators [OF sample_lemmatizer_letters, of ?text nltk_excerpt] free noplus
  have "''printer'' \<notin> stop_words sample_clustering" by blast
  with out survives show ?thesis by blast
qed

text \<open>
  Claim C4 as stated fails twice. The lemma of \<open>needs\<close>, which is not a stop word, is the
  stop word \<open>need\<close>, which stays in the result: the filter runs before the lemmatiser.
  And the operator \<open>my\<close>, which \<open>_initialize_stop_words\<close> takes out of the stop words
  under the comment \<open># Preserve important operators\<close>, passes the filter and is then
  removed by the substitution that deletes the words of one or two characters.
\<close>

theorem operator_removed_counterexample:
  "''my'' \<in> set operators
   \<and> tokenize ''my'' = [''my'']
   \<and> preprocess_text sample_clustering ''my'' = []
   \<and> preprocess_text sample_clustering ''needs'' = ''need''
   \<and> ''need'' \<in> stop_words sample_clustering"
proof -
  have "''my'' \<in> set operators" by (simp add: operators_def)
  moreover have "tokenize ''my'' = [''my'']" by code_simp
  moreover have "preprocess_text sample_clustering ''my'' = []" by code_simp
  moreover have "preprocess_text sample_clustering ''needs'' = ''need''" by code_simp
  moreover have "''need'' \<in> stop_words sample_clustering" by code_simp
  ultimately show ?thesis by blast
qed

end
